theory Spec2Isabelle
  imports Complex_Main
begin

section \<open>Python values used by \<open>maestral/cli.py\<close>\<close>

text \<open>
  Python's unbounded integers are \<^typ>\<open>int\<close>; strings are \<^typ>\<open>string\<close>, one
  \<^typ>\<open>char\<close> per code point (code points below 256). Exceptions are values of
  \<open>py_error\<close>; a function that can raise returns \<open>py_error + 'a\<close>, \<open>Inl\<close> being the
  raise. The argument of \<open>ValueError\<close> is the message of the source.
\<close>

datatype py_error =
    ValueError string
  | IndexError
  | ZeroDivisionError
  | OverflowError

text \<open>The messages of the \<open>ValueError\<close>s that \<open>format_table\<close> can raise.\<close>

definition both_given_msg :: string where
  "both_given_msg = ''Cannot give both rows and columns as input.''"

definition neither_given_msg :: string where
  "neither_given_msg = ''Must give either rows or columns as input.''"

definition alignment_count_msg :: string where
  "alignment_count_msg = ''Must give an alignment for every column.''"

definition alignment_tag_msg :: string where
  "alignment_tag_msg = ''Alignment must be LEFT = 0, CENTER = 1, RIGHT = 2''"

definition max_empty_msg :: string where
  \<comment> \<open>the message of \<open>max()\<close> of an empty generator\<close>
  "max_empty_msg = ''max() arg is an empty sequence''"

definition invalid_width_msg :: string where
  \<comment> \<open>\<open>textwrap\<close>: \<open>invalid width %r (must be > 0)\<close>, the number left out\<close>
  "invalid_width_msg = ''invalid width (must be > 0)''"

text \<open>
  \<open>round(x)\<close> of Python 3 rounds to the nearest integer and a tie to the even
  neighbour; on a \<open>float\<close> it does so exactly, on the value that the \<open>float\<close> has.
\<close>

definition py_round :: "rat \<Rightarrow> int" where
  "py_round x =
     (let f = \<lfloor>x\<rfloor>; d = x - of_int f
      in if d < 1 / 2 then f
         else if 1 / 2 < d then f + 1
         else if even f then f else f + 1)"

section \<open>Binary floating point\<close>

text \<open>
  A Python \<open>float\<close> is an IEEE 754 double: 53 bits of mantissa, the least exponent
  \<open>-1022\<close> (below it the numbers are subnormal, multiples of \<open>2 ^ (-1074)\<close>), and every
  finite value below \<open>2 ^ 1024\<close> in magnitude. A finite \<open>float\<close> is modelled by the rational
  number that it is. The true division of two integers, the conversion of an integer and
  the subtraction of two floats all give the double nearest to the exact result, a tie
  going to the even mantissa.

  \<open>bit_length n\<close> is \<open>n.bit_length()\<close> for \<open>n \<ge> 0\<close>, \<open>pow2 e\<close> is \<open>2 ^ e\<close>, and
  \<open>exponent q\<close> is the \<open>e\<close> with \<open>2 ^ e \<le> |q| < 2 ^ (e + 1)\<close> for \<open>q \<noteq> 0\<close>.
\<close>

function bit_length :: "int \<Rightarrow> nat" where
  "bit_length n = (if n \<le> 0 then 0 else Suc (bit_length (n div 2)))"
  by pat_completeness auto

termination
  by (relation "measure nat") auto

declare bit_length.simps [simp del]

definition pow2 :: "int \<Rightarrow> rat" where
  "pow2 e = (if 0 \<le> e then of_int (2 ^ nat e) else 1 / of_int (2 ^ nat (- e)))"

definition exponent :: "rat \<Rightarrow> int" where
  "exponent q =
     (let (a, b) = quotient_of \<bar>q\<bar>;
          e = int (bit_length a) - int (bit_length b)
      in if pow2 e \<le> \<bar>q\<bar> then e else e - 1)"

text \<open>
  \<open>double q\<close> is \<open>q\<close> rounded to 53 significant bits, or to a multiple of \<open>2 ^ (-1074)\<close>
  when \<open>q\<close> is in the subnormal range, with no bound on the exponent from above.
\<close>

definition double :: "rat \<Rightarrow> rat" where
  "double q =
     (if q = 0 then 0
      else let p = max (exponent q) (- 1022) - 52
           in of_int (py_round (q / pow2 p)) * pow2 p)"

text \<open>
  \<open>round_double q\<close> is the float that an operation with the exact result \<open>q\<close> returns.
  When the rounded value is \<open>2 ^ 1024\<close> or more in magnitude, \<open>int / int\<close> and the conversion
  of an \<open>int\<close> raise \<open>OverflowError\<close>; the subtraction of floats returns an infinity then,
  and \<open>round\<close> of an infinity raises \<open>OverflowError\<close>, which is the only use that the table
  code makes of a difference.
\<close>

definition round_double :: "rat \<Rightarrow> py_error + rat" where
  "round_double q =
     (let x = double q
      in if x = 0 \<or> exponent x < 1024 then Inr x else Inl OverflowError)"

section \<open>String methods\<close>

text \<open>
  \<open>str.isspace\<close>, which \<open>str.strip()\<close> and \<open>str.split()\<close> use, on code points below 256.
\<close>

definition isspace :: "char \<Rightarrow> bool" where
  "isspace c = (of_char c \<in> {9, 10, 11, 12, 13, 28, 29, 30, 31, 32, 133, 160 :: nat})"

text \<open>\<open>s.strip() == ''\<close>: every character of \<open>s\<close> is white space.\<close>

definition blank :: "string \<Rightarrow> bool" where
  "blank s = list_all isspace s"

definition spaces :: "int \<Rightarrow> string" where
  \<comment> \<open>\<open>' ' * n\<close>, empty for a negative \<open>n\<close>\<close>
  "spaces n = replicate (nat n) (CHR '' '')"

definition ljust :: "string \<Rightarrow> int \<Rightarrow> string" where
  "ljust s width = s @ spaces (width - int (length s))"

definition rjust :: "string \<Rightarrow> int \<Rightarrow> string" where
  "rjust s width = spaces (width - int (length s)) @ s"

definition center :: "string \<Rightarrow> int \<Rightarrow> string" where
  \<comment> \<open>CPython: \<open>left = marg / 2 + (marg & width & 1)\<close>\<close>
  "center s width =
     (let marg = width - int (length s)
      in if marg \<le> 0 then s
         else let left = marg div 2 + (if odd marg \<and> odd width then 1 else 0)
              in spaces left @ s @ spaces (marg - left))"

fun join :: "string \<Rightarrow> string list \<Rightarrow> string" where
  "join sep [] = []"
| "join sep [x] = x"
| "join sep (x # y # ys) = x @ sep @ join sep (y # ys)"

text \<open>
  \<open>str.expandtabs(8)\<close>: a tab becomes the spaces that reach the next multiple of
  eight of the column; a line feed or carriage return resets the column.
\<close>

fun expandtabs_from :: "nat \<Rightarrow> string \<Rightarrow> string" where
  "expandtabs_from j [] = []"
| "expandtabs_from j (c # cs) =
     (if c = CHR 0x09 then replicate (8 - j mod 8) (CHR '' '') @ expandtabs_from (j + (8 - j mod 8)) cs
      else if c = CHR 0x0A \<or> c = CHR 0x0D then c # expandtabs_from 0 cs
      else c # expandtabs_from (Suc j) cs)"

definition expandtabs :: "string \<Rightarrow> string" where
  "expandtabs s = expandtabs_from 0 s"

text \<open>
  \<open>str.split()\<close> without arguments: the maximal runs of characters that are not white
  space. \<open>split_acc w s\<close> carries the run \<open>w\<close> read so far.
\<close>

fun split_acc :: "string \<Rightarrow> string \<Rightarrow> string list" where
  "split_acc w [] = (if w = [] then [] else [w])"
| "split_acc w (c # cs) =
     (if isspace c then (if w = [] then split_acc [] cs else w # split_acc [] cs)
      else split_acc (w @ [c]) cs)"

definition str_split :: "string \<Rightarrow> string list" where
  "str_split s = split_acc [] s"

text \<open>Collapsing white space: \<open>' '.join(s.split())\<close>.\<close>

definition collapse :: "string \<Rightarrow> string" where
  "collapse s = join '' '' (str_split s)"

section \<open>\<open>textwrap.wrap\<close> of the standard library\<close>

text \<open>
  \<open>format_table\<close> wraps every cell with \<open>textwrap.wrap(cell, width=width)\<close>, a
  \<open>TextWrapper\<close> with its default options (\<open>expand_tabs\<close>, \<open>replace_whitespace\<close>,
  \<open>break_long_words\<close>, \<open>drop_whitespace\<close>, \<open>break_on_hyphens\<close> true, empty indents,
  \<open>tabsize\<close> 8, no \<open>max_lines\<close>). The model follows \<open>Lib/textwrap.py\<close> of CPython 3.11
  on these options.
\<close>

definition is_ws :: "char \<Rightarrow> bool" where
  \<comment> \<open>\<open>_whitespace = '\t\n\x0b\x0c\r '\<close>\<close>
  "is_ws c = (of_char c \<in> {9, 10, 11, 12, 13, 32 :: nat})"

definition is_digit :: "char \<Rightarrow> bool" where
  \<comment> \<open>the class \<open>\d\<close>\<close>
  "is_digit c = (let n = of_char c :: nat in 48 \<le> n \<and> n \<le> 57)"

definition is_word :: "char \<Rightarrow> bool" where
  \<comment> \<open>the class \<open>\w\<close>: alphanumeric code points and the underscore\<close>
  "is_word c =
     (let n = of_char c :: nat
      in (48 \<le> n \<and> n \<le> 57) \<or> (65 \<le> n \<and> n \<le> 90) \<or> n = 95 \<or> (97 \<le> n \<and> n \<le> 122)
         \<or> n \<in> {170, 178, 179, 181, 185, 186, 188, 189, 190}
         \<or> (192 \<le> n \<and> n \<le> 214) \<or> (216 \<le> n \<and> n \<le> 246) \<or> 248 \<le> n)"

definition is_letter :: "char \<Rightarrow> bool" where
  \<comment> \<open>\<open>letter = [^\d\W]\<close>\<close>
  "is_letter c = (is_word c \<and> \<not> is_digit c)"

definition is_word_punct :: "char \<Rightarrow> bool" where
  \<comment> \<open>\<open>word_punct = [\w!"'&.,?]\<close>\<close>
  "is_word_punct c = (is_word c \<or> of_char c \<in> {33, 34, 38, 39, 44, 46, 63 :: nat})"

definition is_hyphen :: "char \<Rightarrow> bool" where
  "is_hyphen c = (c = CHR ''-'')"

definition munge_whitespace :: "string \<Rightarrow> string" where
  "munge_whitespace text = map (\<lambda>c. if is_ws c then CHR '' '' else c) (expandtabs text)"

text \<open>
  \<open>wordsep_re\<close>. In the functions below \<open>bef\<close> is the text before the current
  position, last character first (what a lookbehind reads), and the other string is the
  text from the position on.

  \<open>lookbehind_hyphenated\<close> is \<open>(?<=lt{2}-) | (?<=lt-lt-)\<close> read just after a hyphen,
  \<open>bef\<close> being the text before that hyphen; \<open>lookahead_hyphenated\<close> is
  \<open>(?= lt -? lt)\<close>; \<open>em_dash_at\<close> is \<open>(?<=wp)\<close> followed by at least two hyphens and
  then \<open>\w\<close>, the condition of both em-dash alternatives.
\<close>

definition lookbehind_hyphenated :: "string \<Rightarrow> bool" where
  "lookbehind_hyphenated bef =
     (case bef of
        a # b # r \<Rightarrow>
          is_letter a \<and> (is_letter b \<or> (is_hyphen b \<and> (case r of c # _ \<Rightarrow> is_letter c | [] \<Rightarrow> False)))
      | _ \<Rightarrow> False)"

definition lookahead_hyphenated :: "string \<Rightarrow> bool" where
  "lookahead_hyphenated r =
     (case r of
        a # b # r' \<Rightarrow>
          is_letter a \<and> ((is_hyphen b \<and> (case r' of c # _ \<Rightarrow> is_letter c | [] \<Rightarrow> False)) \<or> is_letter b)
      | _ \<Rightarrow> False)"

definition em_dash_at :: "string \<Rightarrow> string \<Rightarrow> bool" where
  "em_dash_at bef rest =
     ((case bef of b # _ \<Rightarrow> is_word_punct b | [] \<Rightarrow> False) \<and>
      (let m = length (takeWhile is_hyphen rest)
       in 2 \<le> m \<and> (case drop m rest of c # _ \<Rightarrow> is_word c | [] \<Rightarrow> False)))"

text \<open>
  The third alternative, a word: \<open>nws+?\<close> is lazy, so the word ends at the first
  position where one of its three endings matches, tried in the order of the
  expression; the first ending consumes the hyphen. \<open>word_end bef rest\<close> is called with
  at least one character of the word read and returns how many more it takes.
\<close>

fun word_end :: "string \<Rightarrow> string \<Rightarrow> nat" where
  "word_end bef [] = 0"
| "word_end bef (c # cs) =
     (if is_hyphen c \<and> lookbehind_hyphenated bef \<and> lookahead_hyphenated cs then 1
      else if is_ws c then 0
      else if em_dash_at bef (c # cs) then 0
      else Suc (word_end (c # bef) cs))"

text \<open>
  \<open>wordsep_re.split(text)\<close> without the empty strings. Every position starts a match
  (white space, an em-dash or a word), so the chunks are the successive matches.
\<close>

function split_from :: "string \<Rightarrow> string \<Rightarrow> string list" where
  "split_from bef [] = []"
| "split_from bef (c # cs) =
     (let k = (if is_ws c then length (takeWhile is_ws cs)
               else if em_dash_at bef (c # cs) then length (takeWhile is_hyphen cs)
               else word_end (c # bef) cs)
      in (c # take k cs) # split_from (rev (take k cs) @ c # bef) (drop k cs))"
  by pat_completeness auto
termination
  by (relation "measure (\<lambda>(bef, rest). length rest)") auto

definition split_chunks :: "string \<Rightarrow> string list" where
  \<comment> \<open>\<open>_split_chunks\<close>\<close>
  "split_chunks text = split_from [] (munge_whitespace text)"

text \<open>
  \<open>_wrap_chunks\<close>. The source reverses the chunks and pops from the end; the model
  keeps them in reading order and takes from the front. \<open>fill_line\<close> is the inner
  \<open>while chunks\<close> loop.
\<close>

fun fill_line :: "nat \<Rightarrow> string list \<Rightarrow> nat \<Rightarrow> string list \<Rightarrow> string list \<times> nat \<times> string list" where
  "fill_line width cur_line cur_len [] = (cur_line, cur_len, [])"
| "fill_line width cur_line cur_len (c # chunks) =
     (if cur_len + length c \<le> width
      then fill_line width (cur_line @ [c]) (cur_len + length c) chunks
      else (cur_line, cur_len, c # chunks))"

definition rfind :: "char \<Rightarrow> string \<Rightarrow> nat \<Rightarrow> int" where
  \<comment> \<open>\<open>s.rfind(ch, 0, e)\<close>\<close>
  "rfind ch s e =
     (case filter (\<lambda>i. s ! i = ch) (rev [0 ..< min e (length s)]) of
        [] \<Rightarrow> - 1
      | i # _ \<Rightarrow> int i)"

text \<open>
  \<open>_handle_long_word\<close> with \<open>break_long_words\<close>; it is called with a chunk left. The
  result is the new \<open>cur_line\<close> and the remaining chunks. \<open>cur_len\<close> never exceeds
  \<open>width\<close> when it is called, so \<open>width - cur_len\<close> is not negative.
\<close>

definition handle_long_word :: "string list \<Rightarrow> string list \<Rightarrow> nat \<Rightarrow> nat \<Rightarrow> string list \<times> string list" where
  "handle_long_word chunks cur_line cur_len width =
     (let space_left = (if width < 1 then 1 else width - cur_len);
          chunk = hd chunks;
          hyphen = rfind (CHR ''-'') chunk space_left;
          end = (if length chunk > space_left \<and> hyphen > 0
                    \<and> (\<exists>c \<in> set (take (nat hyphen) chunk). c \<noteq> CHR ''-'')
                 then nat hyphen + 1 else space_left)
      in (cur_line @ [take end chunk], drop end chunk # tl chunks))"

text \<open>
  One pass of the outer \<open>while chunks\<close> loop, for a non-empty list of chunks:
  \<open>started\<close> says whether \<open>lines\<close> is non-empty; the result is the line the pass appends,
  if any, and the chunks left.
\<close>

definition wrap_step :: "nat \<Rightarrow> bool \<Rightarrow> string list \<Rightarrow> string option \<times> string list" where
  "wrap_step width started chunks =
     (let chunks1 = (if blank (hd chunks) \<and> started then tl chunks else chunks);
          (cur_line, cur_len, chunks2) = fill_line width [] 0 chunks1;
          (cur_line2, chunks3) =
             (if chunks2 \<noteq> [] \<and> length (hd chunks2) > width
              then handle_long_word chunks2 cur_line cur_len width
              else (cur_line, chunks2));
          cur_line3 = (if cur_line2 \<noteq> [] \<and> blank (last cur_line2) then butlast cur_line2 else cur_line2)
      in (if cur_line3 \<noteq> [] then Some (concat cur_line3) else None, chunks3))"

definition chunks_size :: "string list \<Rightarrow> nat" where
  "chunks_size chunks = sum_list (map length chunks) + length chunks"

text \<open>Every pass of the outer loop shortens the list of chunks.\<close>

lemma chunks_size_Cons [simp]: "chunks_size (c # cs) = Suc (length c + chunks_size cs)"
  by (simp add: chunks_size_def)

lemma chunks_size_Nil [simp]: "chunks_size [] = 0"
  by (simp add: chunks_size_def)

lemma chunks_size_append [simp]: "chunks_size (xs @ ys) = chunks_size xs + chunks_size ys"
  by (simp add: chunks_size_def)

lemma chunks_size_tl: "cs \<noteq> [] \<Longrightarrow> chunks_size (tl cs) < chunks_size cs"
  by (cases cs) simp_all

lemma fill_line_split:
  "fill_line width cur_line cur_len chunks = (cur_line', cur_len', rest) \<Longrightarrow>
     \<exists>taken. chunks = taken @ rest \<and> cur_line' = cur_line @ taken
       \<and> cur_len' = cur_len + sum_list (map length taken)"
proof (induction chunks arbitrary: cur_line cur_len)
  case Nil
  then show ?case by simp
next
  case (Cons c chunks)
  show ?case
  proof (cases "cur_len + length c \<le> width")
    case True
    with Cons.prems have "fill_line width (cur_line @ [c]) (cur_len + length c) chunks = (cur_line', cur_len', rest)"
      by simp
    from Cons.IH [OF this] obtain taken where
      "chunks = taken @ rest" "cur_line' = (cur_line @ [c]) @ taken"
      "cur_len' = cur_len + length c + sum_list (map length taken)"
      by blast
    then show ?thesis
      by (intro exI [of _ "c # taken"]) simp
  next
    case False
    with Cons.prems show ?thesis by simp
  qed
qed

lemma fill_line_bound:
  "fill_line width cur_line cur_len chunks = (cur_line', cur_len', rest) \<Longrightarrow> cur_len \<le> width \<Longrightarrow>
     cur_len' \<le> width \<and> (rest \<noteq> [] \<longrightarrow> width < cur_len' + length (hd rest))"
  by (induction chunks arbitrary: cur_line cur_len) (auto split: if_splits)

lemma handle_long_word_snd:
  "\<exists>e. snd (handle_long_word chunks cur_line cur_len width) = drop e (hd chunks) # tl chunks
      \<and> (width < 1 \<or> cur_len < width \<longrightarrow> 0 < e)"
  unfolding handle_long_word_def Let_def snd_conv
  by (rule exI, rule conjI, rule refl) (simp split: if_splits)

lemma handle_long_word_size_less:
  assumes "chunks \<noteq> []" "hd chunks \<noteq> []" "width < 1 \<or> cur_len < width"
  shows "chunks_size (snd (handle_long_word chunks cur_line cur_len width)) < chunks_size chunks"
proof -
  obtain c cs where chunks: "chunks = c # cs"
    using assms(1) by (cases chunks) auto
  obtain e where e: "snd (handle_long_word chunks cur_line cur_len width) = drop e c # cs" "0 < e"
    using handle_long_word_snd [of chunks cur_line cur_len width] assms(3) chunks by auto
  have "length (drop e c) < length c"
    using e(2) assms(2) chunks by (cases c) auto
  then show ?thesis
    using e(1) by (simp add: chunks)
qed

lemma handle_long_word_size_le:
  assumes "chunks \<noteq> []"
  shows "chunks_size (snd (handle_long_word chunks cur_line cur_len width)) \<le> chunks_size chunks"
proof -
  obtain c cs where chunks: "chunks = c # cs"
    using assms(1) by (cases chunks) auto
  obtain e where e: "snd (handle_long_word chunks cur_line cur_len width) = drop e c # cs"
    using handle_long_word_snd [of chunks cur_line cur_len width] chunks by auto
  show ?thesis
    using e(1) by (simp add: chunks)
qed

lemma wrap_step_decreases:
  assumes "chunks \<noteq> []"
  shows "chunks_size (snd (wrap_step width started chunks)) < chunks_size chunks"
proof -
  define chunks1 where "chunks1 = (if blank (hd chunks) \<and> started then tl chunks else chunks)"
  obtain cur_line cur_len chunks2 where fl: "fill_line width [] 0 chunks1 = (cur_line, cur_len, chunks2)"
    by (cases "fill_line width [] 0 chunks1") auto
  define long where "long = (chunks2 \<noteq> [] \<and> length (hd chunks2) > width)"
  define chunks3 where "chunks3 = (if long then snd (handle_long_word chunks2 cur_line cur_len width) else chunks2)"
  have snd: "snd (wrap_step width started chunks) = chunks3"
    by (simp add: wrap_step_def Let_def chunks1_def [symmetric] fl long_def chunks3_def
          split: prod.splits)
  from fill_line_split [OF fl] obtain taken where
    taken: "chunks1 = taken @ chunks2" "cur_len = sum_list (map length taken)"
    by auto
  from fill_line_bound [OF fl] have bound: "cur_len \<le> width"
    "chunks2 \<noteq> [] \<Longrightarrow> width < cur_len + length (hd chunks2)"
    by auto
  have le3: "chunks_size chunks3 \<le> chunks_size chunks2"
    using handle_long_word_size_le [of chunks2] by (simp add: chunks3_def long_def)
  have le2: "chunks_size chunks2 \<le> chunks_size chunks1"
    by (simp add: taken(1))
  show ?thesis
  proof (cases "chunks1 = chunks")
    case False
    then have "chunks1 = tl chunks"
      by (simp add: chunks1_def split: if_splits)
    with chunks_size_tl [OF assms] le2 le3 show ?thesis
      by (simp add: snd)
  next
    case True
    show ?thesis
    proof (cases "taken = []")
      case False
      then have "chunks_size chunks2 < chunks_size chunks1"
        by (cases taken) (simp_all add: taken(1))
      with le3 True show ?thesis
        by (simp add: snd)
    next
      case Nil: True
      with taken True assms have c2: "chunks2 = chunks" "chunks2 \<noteq> []" "cur_len = 0"
        by simp_all
      with bound(2) have lng: "width < length (hd chunks2)"
        by simp
      then have "long" "hd chunks2 \<noteq> []"
        using c2 by (auto simp: long_def)
      moreover have "width < 1 \<or> cur_len < width"
        using c2 by auto
      ultimately show ?thesis
        using handle_long_word_size_less [of chunks2 width cur_len cur_line] c2
        by (simp add: snd chunks3_def)
    qed
  qed
qed

text \<open>The outer loop; \<open>wrap_step_decreases\<close> is its termination argument.\<close>

function wrap_loop :: "nat \<Rightarrow> bool \<Rightarrow> string list \<Rightarrow> string list" where
  "wrap_loop width started chunks =
     (if chunks = [] then []
      else case wrap_step width started chunks of
             (None, rest) \<Rightarrow> wrap_loop width started rest
           | (Some line, rest) \<Rightarrow> line # wrap_loop width True rest)"
  by pat_completeness auto
termination
proof (relation "measure (\<lambda>(width, started, chunks). chunks_size chunks)", goal_cases)
  case 1
  show ?case by simp
next
  case (2 width started chunks x xa)
  then have "xa = snd (wrap_step width started chunks)"
    by (metis snd_conv)
  with wrap_step_decreases [OF 2(1)] show ?case
    by simp
next
  case (3 width started chunks x xa line)
  then have "xa = snd (wrap_step width started chunks)"
    by (metis snd_conv)
  with wrap_step_decreases [OF 3(1)] show ?case
    by simp
qed

declare wrap_loop.simps [simp del]

text \<open>\<open>textwrap.wrap(text, width=width)\<close>.\<close>

definition textwrap_wrap :: "string \<Rightarrow> int \<Rightarrow> py_error + string list" where
  "textwrap_wrap text width =
     (let chunks = split_chunks text
      in if width \<le> 0 then Inl (ValueError invalid_width_msg)
         else Inr (wrap_loop (nat width) False chunks))"

section \<open>\<open>format_table\<close>\<close>

text \<open>
  The list objects a caller passes live in a store, so that mutation and aliasing are
  visible: \<open>rows\<close> and \<open>columns\<close> are lists of references to lists of cells. The outer
  lists, \<open>headers\<close> and \<open>alignment\<close> are values: the function calls no mutating method
  on them.
\<close>

type_synonym ref = nat
type_synonym store = "ref \<Rightarrow> string list"

datatype alignment = AlignInt int | AlignList "int list"

definition LEFT :: int where "LEFT = 0"
definition CENTER :: int where "CENTER = 1"
definition RIGHT :: int where "RIGHT = 2"

definition truthy :: "'a list option \<Rightarrow> bool" where
  \<comment> \<open>the truth value of an optional list: neither \<open>None\<close> nor empty\<close>
  "truthy x = (case x of None \<Rightarrow> False | Some xs \<Rightarrow> xs \<noteq> [])"

text \<open>
  \<open>_transpose\<close>: \<open>list(map(list, zip(*ll)))\<close>; \<open>zip\<close> stops at the shortest list, and of
  no list at all it is empty.
\<close>

function transpose_ll :: "'a list list \<Rightarrow> 'a list list" where
  "transpose_ll ll =
     (if ll = [] \<or> (\<exists>l \<in> set ll. l = []) then []
      else map hd ll # transpose_ll (map tl ll))"
  by pat_completeness auto
termination
proof (relation "measure (\<lambda>ll. length (hd ll))", goal_cases)
  case 1
  show ?case by simp
next
  case (2 ll)
  then obtain l ls where ll: "ll = l # ls" and "l \<noteq> []"
    by (cases ll) auto
  then show ?case
    by (cases l) simp_all
qed

declare transpose_ll.simps [simp del]

text \<open>The first raise of a comprehension or loop over a list ends it.\<close>

fun map_err :: "('a \<Rightarrow> 'e + 'b) \<Rightarrow> 'a list \<Rightarrow> 'e + 'b list" where
  "map_err f [] = Inr []"
| "map_err f (x # xs) =
     (case f x of
        Inl e \<Rightarrow> Inl e
      | Inr y \<Rightarrow> (case map_err f xs of Inl e \<Rightarrow> Inl e | Inr ys \<Rightarrow> Inr (y # ys)))"

fun py_max :: "int list \<Rightarrow> py_error + int" where
  "py_max [] = Inl (ValueError max_empty_msg)"
| "py_max (x # xs) = Inr (fold max xs x)"

text \<open>
  Lines 260 to 262, \<open>col.insert(0, headers[i])\<close> for the \<open>i\<close>-th column: on the caller's
  lists in the store, and on the fresh lists that \<open>_transpose\<close> built. \<open>headers[i]\<close> raises
  when \<open>headers\<close> is shorter than \<open>columns\<close>, after the earlier columns were changed.
\<close>

fun insert_headers_store :: "string list \<Rightarrow> nat \<Rightarrow> ref list \<Rightarrow> store \<Rightarrow> store \<times> py_error option" where
  "insert_headers_store hs i [] st = (st, None)"
| "insert_headers_store hs i (r # rs) st =
     (if i < length hs then insert_headers_store hs (Suc i) rs (st(r := hs ! i # st r))
      else (st, Some IndexError))"

fun insert_headers_fresh :: "string list \<Rightarrow> nat \<Rightarrow> string list list \<Rightarrow> py_error + string list list" where
  "insert_headers_fresh hs i [] = Inr []"
| "insert_headers_fresh hs i (col # cols) =
     (if i < length hs
      then (case insert_headers_fresh hs (Suc i) cols of
              Inl e \<Rightarrow> Inl e
            | Inr cols' \<Rightarrow> Inr ((hs ! i # col) # cols'))
      else Inl IndexError)"

text \<open>
  Lines 251 to 262: the choice between \<open>rows\<close> and \<open>columns\<close> and the insertion of the
  headers. The result is the store after the call and the columns as the rest of the
  function reads them.
\<close>

definition prepare_columns ::
  "store \<Rightarrow> ref list option \<Rightarrow> ref list option \<Rightarrow> string list option
     \<Rightarrow> store \<times> (py_error + string list list)" where
  "prepare_columns st rows columns headers =
     (if truthy rows \<and> truthy columns
      then (st, Inl (ValueError both_given_msg))
      else if \<not> truthy columns then
        (if truthy rows then
           (let fresh = transpose_ll (map st (the rows))
            in if truthy headers then (st, insert_headers_fresh (the headers) 0 fresh)
               else (st, Inr fresh))
         else (st, Inl (ValueError neither_given_msg)))
      else
        (if truthy headers then
           (case insert_headers_store (the headers) 0 (the columns) st of
              (st', Some e) \<Rightarrow> (st', Inl e)
            | (st', None) \<Rightarrow> (st', Inr (map st' (the columns))))
         else (st, Inr (map st (the columns)))))"

text \<open>Lines 268 to 274.\<close>

definition resolve_alignment :: "alignment option \<Rightarrow> nat \<Rightarrow> py_error + int list" where
  "resolve_alignment alignment n =
     (case alignment of
        None \<Rightarrow> Inr (replicate n LEFT)
      | Some (AlignInt a) \<Rightarrow> if a = 0 then Inr (replicate n LEFT) else Inr (replicate n a)
      | Some (AlignList l) \<Rightarrow>
          if l = [] then Inr (replicate n LEFT)
          else if length l \<noteq> n then Inl (ValueError alignment_count_msg)
          else Inr l)"

text \<open>Line 278.\<close>

definition natural_widths :: "string list list \<Rightarrow> py_error + int list" where
  "natural_widths columns = map_err (\<lambda>col. py_max (map (\<lambda>cell. int (length cell)) col)) columns"

text \<open>
  Line 288 for one column, \<open>round(w - subtract * w**n / sum_widths)\<close> with \<open>n = 3\<close>: the
  product \<open>subtract * w**n\<close> is an exact integer, its true division by \<open>sum_widths\<close>
  raises \<open>ZeroDivisionError\<close> or gives a float, \<open>w\<close> is converted to a float for the
  subtraction, and the difference is rounded to an integer.
\<close>

definition shrink_width :: "int \<Rightarrow> int \<Rightarrow> int \<Rightarrow> py_error + int" where
  "shrink_width subtract sum_widths w =
     (if sum_widths = 0 then Inl ZeroDivisionError
      else case round_double (of_int (subtract * w ^ 3) / of_int sum_widths) of
        Inl e \<Rightarrow> Inl e
      | Inr y \<Rightarrow>
         (case round_double (of_int w) of
            Inl e \<Rightarrow> Inl e
          | Inr x \<Rightarrow>
             (case round_double (x - y) of
                Inl e \<Rightarrow> Inl e
              | Inr d \<Rightarrow> Inr (py_round d))))"

text \<open>
  Lines 282 to 288 of \<open>cli.py\<close>, the body of \<open>if wrap:\<close>. \<open>terminal_width\<close> is the
  first component of \<open>click.get_terminal_size()\<close>; \<open>col_widths\<close> holds the natural
  widths of line 278.
\<close>

definition shrink_widths :: "int \<Rightarrow> int \<Rightarrow> int list \<Rightarrow> py_error + int list" where
  "shrink_widths terminal_width padding col_widths =
     (let available_width = terminal_width - padding * int (length col_widths);
          sum_widths = sum_list (map (\<lambda>w. w ^ 3) col_widths);
          subtract = max (sum_list col_widths - available_width) 0
      in map_err (shrink_width subtract sum_widths) col_widths)"

text \<open>Lines 278 to 288: the final column widths.\<close>

definition final_widths :: "int \<Rightarrow> int \<Rightarrow> bool \<Rightarrow> string list list \<Rightarrow> py_error + int list" where
  "final_widths terminal_width padding wrap columns =
     (case natural_widths columns of
        Inl e \<Rightarrow> Inl e
      | Inr col_widths \<Rightarrow>
          if wrap then shrink_widths terminal_width padding col_widths else Inr col_widths)"

text \<open>Lines 292 to 295.\<close>

definition wrap_columns :: "string list list \<Rightarrow> int list \<Rightarrow> py_error + string list list list" where
  "wrap_columns columns col_widths =
     map_err (\<lambda>(column, width). map_err (\<lambda>cell. textwrap_wrap cell width) column)
       (zip columns col_widths)"

text \<open>
  Lines 310 to 321, one printed line: the cells of a row with their widths and
  alignments, \<open>line\<close> being the text built so far.
\<close>

fun fill_cells :: "string \<Rightarrow> nat \<Rightarrow> int \<Rightarrow> (string list \<times> int \<times> int) list \<Rightarrow> py_error + string" where
  "fill_cells line i padding [] = Inr line"
| "fill_cells line i padding ((cell, width, align) # rest) =
     (if align = LEFT then fill_cells (line @ ljust (cell ! i) width @ spaces padding) i padding rest
      else if align = RIGHT then fill_cells (line @ rjust (cell ! i) width @ spaces padding) i padding rest
      else if align = CENTER then fill_cells (line @ center (cell ! i) width @ spaces padding) i padding rest
      else Inl (ValueError alignment_tag_msg))"

text \<open>Lines 303 to 323 for one row: the cells are padded to \<open>n_lines\<close> lines.\<close>

definition row_lines :: "int list \<Rightarrow> int list \<Rightarrow> int \<Rightarrow> string list list \<Rightarrow> py_error + string list" where
  "row_lines col_widths alignment padding row =
     (case py_max (map (\<lambda>cell. int (length cell)) row) of
        Inl e \<Rightarrow> Inl e
      | Inr n \<Rightarrow>
          (let n_lines = nat n;
               row' = map (\<lambda>cell. cell @ replicate (n_lines - length cell) []) row
           in map_err (\<lambda>i. fill_cells [] i padding (zip row' (zip col_widths alignment)))
                [0 ..< n_lines]))"

text \<open>Lines 290 to 325: wrapping, the rows of wrapped cells and the printed lines.\<close>

definition render_table :: "string list list \<Rightarrow> int list \<Rightarrow> int list \<Rightarrow> int \<Rightarrow> py_error + string" where
  "render_table columns col_widths aligns padding =
     (case wrap_columns columns col_widths of
        Inl e \<Rightarrow> Inl e
      | Inr wrapped_columns \<Rightarrow>
         (case map_err (row_lines col_widths aligns padding) (transpose_ll wrapped_columns) of
            Inl e \<Rightarrow> Inl e
          | Inr lines \<Rightarrow> Inr (join [CHR 0x0A] (concat lines))))"

text \<open>Lines 264 to 325, on the columns that \<open>prepare_columns\<close> left.\<close>

definition format_columns ::
  "int \<Rightarrow> string list list \<Rightarrow> int \<Rightarrow> alignment option \<Rightarrow> bool \<Rightarrow> py_error + string" where
  "format_columns terminal_width columns padding alignment wrap =
     (if list_all (\<lambda>col. length col = 0) columns then Inr []
      else case resolve_alignment alignment (length columns) of
        Inl e \<Rightarrow> Inl e
      | Inr aligns \<Rightarrow>
         (case final_widths terminal_width padding wrap columns of
            Inl e \<Rightarrow> Inl e
          | Inr col_widths \<Rightarrow> render_table columns col_widths aligns padding))"

text \<open>
  \<open>format_table\<close>: the store after the call and the returned text or the exception.
  \<open>terminal_width\<close> is what \<open>click.get_terminal_size()\<close> reports.
\<close>

definition format_table ::
  "store \<Rightarrow> int \<Rightarrow> ref list option \<Rightarrow> ref list option \<Rightarrow> string list option \<Rightarrow> int
     \<Rightarrow> alignment option \<Rightarrow> bool \<Rightarrow> store \<times> (py_error + string)" where
  "format_table st terminal_width rows columns headers padding alignment wrap =
     (case prepare_columns st rows columns headers of
        (st', Inl e) \<Rightarrow> (st', Inl e)
      | (st', Inr cols) \<Rightarrow> (st', format_columns terminal_width cols padding alignment wrap))"

text \<open>
  The natural width of a column in the words of the specification: the length of its
  longest cell.
\<close>

definition longest_cell :: "string list \<Rightarrow> int" where
  "longest_cell col = Max (set (map (\<lambda>cell. int (length cell)) col))"

section \<open>The command line and the daemon\<close>

text \<open>
  What a command does is a list of events, in order: its output, its questions to the
  user, and its calls to the daemon module and to the proxy. The answers of the user and
  of the daemon are parameters of the model.
\<close>

datatype Start = Start_Ok | Start_AlreadyRunning | Start_Failed

datatype Stop = Stop_Ok | Stop_NotRunning | Stop_Killed

datatype LifecycleState = NotRunning | Starting | Running | Stopping | Killed

datatype event =
    Echo string bool  \<comment> \<open>\<open>click.echo(message, nl)\<close>; \<open>click.secho\<close> is \<open>echo\<close> of the styled text\<close>
  | Prompt string  \<comment> \<open>\<open>click.prompt\<close>\<close>
  | Confirm string  \<comment> \<open>\<open>click.confirm\<close>\<close>
  | StopProcess string Stop  \<comment> \<open>\<open>stop_maestral_daemon_process(config_name)\<close> and its result\<close>
  | StartThread string Start  \<comment> \<open>\<open>start_maestral_daemon_thread(config_name)\<close> and its result\<close>
  | StartProcess string Start  \<comment> \<open>\<open>start_maestral_daemon_process(config_name)\<close> and its result\<close>
  | GetProxy string  \<comment> \<open>\<open>get_maestral_proxy(config_name)\<close>\<close>
  | GetAuthUrl
  | Link string int  \<comment> \<open>\<open>m.link(auth_code)\<close> and its result\<close>
  | SelectDbxPathDialog string  \<comment> \<open>\<open>select_dbx_path_dialog(config_name, allow_merge=True)\<close>\<close>
  | CreateDropboxDirectory string
  | ListFolder string
  | SetExcludedItems "string list"
  | SetLogToStdout bool
  | StartSync
  | JoinThread string  \<comment> \<open>\<open>threads[config_name].join()\<close>\<close>
  | PauseSync
  | ResumeSync
  | GetFileStatus string
  | IncludeItem string
  | RebuildIndex
  | SetNotificationSnooze nat  \<comment> \<open>\<open>m.notification_snooze = minutes\<close>\<close>
  | UseDefaultColors  \<comment> \<open>\<open>curses.use_default_colors()\<close>\<close>
  | Nodelay  \<comment> \<open>\<open>screen.nodelay(1)\<close>: \<open>getch\<close> does not wait from here on\<close>
  | GetActivity  \<comment> \<open>\<open>m.get_activity()\<close>, \<open>m.status\<close> and \<open>m.sync_errors\<close>\<close>
  | Clear
  | Addstr string
  | Refresh
  | Getch int  \<comment> \<open>\<open>screen.getch()\<close> and the key it returns, negative when there is none\<close>
  | Sleep nat  \<comment> \<open>\<open>time.sleep(seconds)\<close>\<close>

text \<open>\<open>click.style(text, fg=...)\<close>: the text between the colour code and the reset code.\<close>

definition style :: "string \<Rightarrow> string \<Rightarrow> string" where
  "style text code = [CHR 0x1B] @ ''['' @ code @ ''m'' @ text @ [CHR 0x1B] @ ''[0m''"

definition dq :: string where
  \<comment> \<open>the double quote\<close>
  "dq = [CHR 0x22]"

definition red :: string where "red = ''31''"
definition green :: string where "green = ''32''"

definition OK :: string where "OK = style ''[OK]'' green"
definition FAILED :: string where "FAILED = style ''[FAILED]'' red"
definition KILLED :: string where "KILLED = style ''[KILLED]'' red"

text \<open>
  Modelled from the spec: \<open>stop_maestral_daemon_process\<close> of \<open>maestral/daemon.py\<close>, which
  is not among the sources. From \<open>Running\<close> it requests a graceful shutdown and, if the
  daemon does not exit within the grace period, force-terminates it and reports
  \<open>Killed\<close>; a daemon that is not running is reported as such and left as it is. Whether
  the daemon exits in time is the parameter \<open>exits_in_time\<close>; the liveness check is the
  test for \<open>Running\<close>.
\<close>

definition stop_maestral_daemon_process :: "bool \<Rightarrow> LifecycleState \<Rightarrow> Stop \<times> LifecycleState" where
  "stop_maestral_daemon_process exits_in_time s =
     (if s = Running then (if exits_in_time then (Stop_Ok, NotRunning) else (Stop_Killed, Killed))
      else (Stop_NotRunning, s))"

text \<open>
  Modelled from the spec: \<open>start_maestral_daemon_process\<close> and
  \<open>start_maestral_daemon_thread\<close> of \<open>maestral/daemon.py\<close>, which differ in where the
  daemon runs and not in their results. A daemon that is \<open>Running\<close> is reported as
  already running and left alone; otherwise the launch leads to \<open>Running\<close> on success and
  back to \<open>NotRunning\<close> on failure. Whether the launch succeeds is the parameter
  \<open>launch_ok\<close>.
\<close>

definition start_maestral_daemon :: "bool \<Rightarrow> LifecycleState \<Rightarrow> Start \<times> LifecycleState" where
  "start_maestral_daemon launch_ok s =
     (if s = Running then (Start_AlreadyRunning, s)
      else if launch_ok then (Start_Ok, Running)
      else (Start_Failed, NotRunning))"

text \<open>The answers of the user and of the daemon during one command.\<close>

record env =
  exits_in_time :: bool
  launch_ok :: bool
  pending_link :: bool
  auth_url :: string
  link_attempts :: "(string \<times> int) list"  \<comment> \<open>the tokens entered and the results of \<open>m.link\<close>\<close>
  pending_dropbox_folder :: bool
  dbx_path :: "string option"  \<comment> \<open>what \<open>select_dbx_path_dialog\<close> returns, if it returns\<close>
  exclude_folders_q :: bool
  entries :: "(string \<times> string \<times> string) list"  \<comment> \<open>\<open>.tag\<close>, \<open>path_display\<close>, \<open>path_lower\<close>\<close>
  exclude_yes :: "string \<Rightarrow> bool"  \<comment> \<open>the answer to excluding a folder, by \<open>path_display\<close>\<close>

text \<open>Lines 55 to 66.\<close>

definition stop_daemon_with_cli_feedback :: "env \<Rightarrow> string \<Rightarrow> LifecycleState \<Rightarrow> event list \<times> LifecycleState" where
  "stop_daemon_with_cli_feedback e config_name s =
     (let (res, s') = stop_maestral_daemon_process (exits_in_time e) s
      in ([Echo ''Stopping Maestral...'' False, StopProcess config_name res] @
          (case res of
             Stop_Ok \<Rightarrow> [Echo ([CHR 0x0D] @ ''Stopping Maestral...        '' @ OK) True]
           | Stop_NotRunning \<Rightarrow> [Echo ''Maestral daemon is not running.'' True]
           | Stop_Killed \<Rightarrow> [Echo ([CHR 0x0D] @ ''Stopping Maestral...        '' @ KILLED) True]),
          s'))"

text \<open>\<open>str.strip()\<close>.\<close>

definition strip :: "string \<Rightarrow> string" where
  "strip s = rev (dropWhile isspace (rev (dropWhile isspace s)))"

text \<open>
  Lines 139 to 148, the loop of \<open>link_dialog\<close> over the attempts of the user; it does not
  end when no attempt succeeds.
\<close>

fun link_loop :: "(string \<times> int) list \<Rightarrow> event list option" where
  "link_loop [] = None"
| "link_loop ((auth_code, res) # attempts) =
     (let es = [Prompt ''Enter the authorization token here'', Link (strip auth_code) res]
      in if res = 0 then Some es
         else case link_loop attempts of
                None \<Rightarrow> None
              | Some es' \<Rightarrow>
                  Some (es @
                    (if res = 1 then [Echo (style ''Invalid token. Please try again.'' red) True]
                     else if res = 2
                       then [Echo (style ''Could not connect to Dropbox. Please try again.'' red) True]
                     else []) @ es'))"

text \<open>Lines 127 to 148.\<close>

definition link_dialog :: "env \<Rightarrow> event list option" where
  "link_dialog e =
     (case link_loop (link_attempts e) of
        None \<Rightarrow> None
      | Some es \<Rightarrow>
          Some ([GetAuthUrl,
                 Echo (''1. Go to: '' @ auth_url e) True,
                 Echo (''2. Click '' @ dq @ ''Allow'' @ dq @ '' (you may have to log in first).'') True,
                 Echo ''3. Copy the authorization token.'' True] @ es))"

text \<open>Lines 548 to 561: the questions about the top-level folders.\<close>

fun exclude_loop :: "(string \<Rightarrow> bool) \<Rightarrow> (string \<times> string \<times> string) list \<Rightarrow> event list \<times> string list" where
  "exclude_loop yes [] = ([], [])"
| "exclude_loop yes ((tag, path_display, path_lower) # es) =
     (let (evs, excluded_items) = exclude_loop yes es
      in if tag = ''FolderMetadata''
         then (Confirm (''Exclude '' @ dq @ path_display @ dq @ '' from sync?'') # evs,
               if yes path_display then path_lower # excluded_items else excluded_items)
         else (evs, excluded_items))"

text \<open>
  Lines 528 to 568, the setup after a successful start. \<open>select_dbx_path_dialog\<close> is one
  event here; its result is a parameter. The remote calls are taken to succeed.
\<close>

definition post_start_setup :: "env \<Rightarrow> bool \<Rightarrow> bool \<Rightarrow> string \<Rightarrow> event list option" where
  "post_start_setup e foreground verbose config_name =
     (case (if pending_link e then link_dialog e else Some []) of
        None \<Rightarrow> None
      | Some link_events \<Rightarrow>
         (case (if pending_dropbox_folder e
                then (case dbx_path e of
                        None \<Rightarrow> None
                      | Some path \<Rightarrow>
                          Some ([SelectDbxPathDialog config_name, CreateDropboxDirectory path,
                                 Confirm ''Would you like to exclude any folders from syncing?''] @
                                (if exclude_folders_q e
                                 then (let (evs, excluded_items) = exclude_loop (exclude_yes e) (entries e)
                                       in [Echo (''Please choose which top-level folders to exclude. You can exclude''
                                                 @ [CHR 0x0A]
                                                 @ ''individual files or subfolders later with '' @ dq @ ''maestral excluded add'' @ dq @ ''.''
                                                 @ [CHR 0x0A]) True,
                                           ListFolder ''/''] @ evs @ [SetExcludedItems excluded_items])
                                 else [])))
                else Some []) of
            None \<Rightarrow> None
          | Some folder_events \<Rightarrow>
              Some ([GetProxy config_name] @ link_events @ folder_events @
                    [SetLogToStdout verbose, StartSync] @
                    (if foreground then [JoinThread config_name] else []))))"

text \<open>
  Lines 508 to 568, \<open>start\<close>. The result is the events and the state of the daemon once
  the command has started it; in the foreground the command then waits for the daemon's
  thread. \<open>None\<close>: a dialog of the setup does not end.
\<close>

definition start :: "env \<Rightarrow> bool \<Rightarrow> bool \<Rightarrow> string \<Rightarrow> LifecycleState \<Rightarrow> (event list \<times> LifecycleState) option" where
  "start e foreground verbose config_name s =
     (let (res, s') = start_maestral_daemon (launch_ok e) s;
          first_events = [Echo ''Starting Maestral...'' False,
                   if foreground then StartThread config_name res else StartProcess config_name res]
      in if res = Start_Ok then
           (case post_start_setup e foreground verbose config_name of
              None \<Rightarrow> None
            | Some es \<Rightarrow>
                Some (first_events @ [Echo ([CHR 0x0D] @ ''Starting Maestral...        '' @ OK) True] @ es, s'))
         else if res = Start_AlreadyRunning then
           Some (first_events @ [Echo ([CHR 0x0D] @ ''Starting Maestral...        Already running.'') True], s')
         else
           Some (first_events @ [Echo ([CHR 0x0D] @ ''Starting Maestral...        '' @ FAILED) True,
                          Echo ''Please check logs for more information.'' True], s'))"

text \<open>Lines 586 to 590: \<open>ctx.forward(start)\<close> calls \<open>start\<close> with the parameters of \<open>restart\<close>.\<close>

definition restart :: "env \<Rightarrow> bool \<Rightarrow> bool \<Rightarrow> string \<Rightarrow> LifecycleState \<Rightarrow> (event list \<times> LifecycleState) option" where
  "restart e foreground verbose config_name s =
     (let (stop_events, s') = stop_daemon_with_cli_feedback e config_name s
      in case start e foreground verbose config_name s' of
           None \<Rightarrow> None
         | Some (start_events, s'') \<Rightarrow> Some (stop_events @ start_events, s''))"

text \<open>
  An example: the daemon does not exit in time, the launch succeeds, and the account is
  linked at the second attempt.
\<close>

definition example_env :: env where
  "example_env =
     \<lparr>exits_in_time = False, launch_ok = True, pending_link = True, auth_url = ''https://auth'',
      link_attempts = [(''bad'', 1), ('' good '', 0)], pending_dropbox_folder = False,
      dbx_path = None, exclude_folders_q = False, entries = [], exclude_yes = (\<lambda>_. False)\<rparr>"

section \<open>Commands that need a running daemon\<close>

datatype exn =
    CommunicationError  \<comment> \<open>\<open>Pyro5.errors.CommunicationError\<close>\<close>
  | ClickException string
  | Abort  \<comment> \<open>\<open>click.Abort\<close>\<close>
  | PyError py_error

text \<open>What the proxy of a running daemon answers.\<close>

record proxy =
  m_sync_errors :: "(string \<times> string \<times> string) list"  \<comment> \<open>\<open>dbx_path\<close>, \<open>title\<close>, \<open>message\<close>\<close>
  m_fatal_errors :: "(string \<times> string) list"  \<comment> \<open>\<open>title\<close>, \<open>message\<close>\<close>
  m_status :: string
  m_running :: bool
  m_account_email :: string  \<comment> \<open>\<open>m.get_state('account', 'email')\<close>\<close>
  m_account_usage :: string  \<comment> \<open>\<open>m.get_state('account', 'usage')\<close>\<close>
  m_file_status :: "string \<Rightarrow> string"

text \<open>
  Modelled from the spec: \<open>MaestralProxy(config_name)\<close> of \<open>maestral/daemon.py\<close> without
  \<open>fallback\<close>, the strict mode of the gateway: when no daemon is reachable the session
  yields the communication error and makes no attempt to start one. The daemon is
  \<open>None\<close> when it is not running.
\<close>

definition MaestralProxy :: "proxy option \<Rightarrow> exn + proxy" where
  "MaestralProxy daemon = (case daemon of None \<Rightarrow> Inl CommunicationError | Some m \<Rightarrow> Inr m)"

text \<open>
  A command is its events and the exception that leaves it, if any. \<open>with_proxy\<close> is
  \<open>with MaestralProxy(config_name) as m: body\<close>, and \<open>except_CommunicationError\<close> is
  \<open>try: body except Pyro5.errors.CommunicationError: handler\<close>.
\<close>

type_synonym outcome = "event list \<times> exn option"

definition with_proxy :: "proxy option \<Rightarrow> (proxy \<Rightarrow> outcome) \<Rightarrow> outcome" where
  "with_proxy daemon body = (case MaestralProxy daemon of Inl e \<Rightarrow> ([], Some e) | Inr m \<Rightarrow> body m)"

definition except_CommunicationError :: "outcome \<Rightarrow> outcome \<Rightarrow> outcome" where
  "except_CommunicationError body handler =
     (case body of
        (es, Some CommunicationError) \<Rightarrow> (es @ fst handler, snd handler)
      | _ \<Rightarrow> body)"

definition not_running_msg :: string where
  "not_running_msg = ''Maestral daemon is not running.''"

text \<open>\<open>str(n)\<close> of a natural number.\<close>

fun str_nat :: "nat \<Rightarrow> string" where
  "str_nat n = (if n < 10 then [char_of (48 + n)] else str_nat (n div 10) @ [char_of (48 + n mod 10)])"

declare str_nat.simps [simp del]

text \<open>\<open>textwrap.fill(text, width=width)\<close>: the wrapped lines joined by line feeds.\<close>

definition textwrap_fill :: "string \<Rightarrow> int \<Rightarrow> py_error + string" where
  "textwrap_fill text width =
     (case textwrap_wrap text width of Inl e \<Rightarrow> Inl e | Inr lines \<Rightarrow> Inr (join [CHR 0x0A] lines))"

text \<open>
  Lines 177 to 205, \<open>check_for_fatal_errors\<close>: the events and the returned truth value,
  or the exception of \<open>textwrap.fill\<close>.
\<close>

definition check_for_fatal_errors :: "int \<Rightarrow> proxy \<Rightarrow> py_error + event list \<times> bool" where
  "check_for_fatal_errors terminal_width m =
     (case m_fatal_errors m of
        [] \<Rightarrow> Inr ([], False)
      | (err_title, err_msg) # _ \<Rightarrow>
          (case textwrap_fill err_msg terminal_width of
             Inl e \<Rightarrow> Inl e
           | Inr wrapped_msg \<Rightarrow>
               Inr ([Echo [] True, Echo (style err_title red) True, Echo (style wrapped_msg red) True,
                     Echo [] True], True)))"

text \<open>Lines 625 to 633.\<close>

definition pause :: "proxy option \<Rightarrow> outcome" where
  "pause daemon =
     except_CommunicationError
       (case with_proxy daemon (\<lambda>m. ([PauseSync], None)) of
          (es, None) \<Rightarrow> (es @ [Echo ''Syncing paused.'' True], None)
        | r \<Rightarrow> r)
       ([Echo not_running_msg True], None)"

text \<open>Lines 638 to 648.\<close>

definition resume :: "int \<Rightarrow> proxy option \<Rightarrow> outcome" where
  "resume terminal_width daemon =
     except_CommunicationError
       (with_proxy daemon (\<lambda>m.
          case check_for_fatal_errors terminal_width m of
            Inl e \<Rightarrow> ([], Some (PyError e))
          | Inr (es, fatal) \<Rightarrow>
              if \<not> fatal then (es @ [ResumeSync, Echo ''Syncing resumed.'' True], None)
              else (es, None)))
       ([Echo not_running_msg True], None)"

text \<open>
  Lines 654 to 684. The two columns of the table of sync errors are fresh lists, at the
  references 0 and 1 of a store of their own.
\<close>

definition status :: "int \<Rightarrow> proxy option \<Rightarrow> outcome" where
  "status terminal_width daemon =
     except_CommunicationError
       (with_proxy daemon (\<lambda>m.
          let n_errors = length (m_sync_errors m);
              color = (if n_errors > 0 then red else green);
              n_errors_str = style (str_nat n_errors) color;
              es = [Echo [] True,
                    Echo (''Account:      '' @ m_account_email m) True,
                    Echo (''Usage:        '' @ m_account_usage m) True,
                    Echo (''Status:       '' @ m_status m) True,
                    Echo (''Sync threads: '' @ (if m_running m then ''Running'' else ''Stopped'')) True,
                    Echo (''Sync errors:  '' @ n_errors_str) True,
                    Echo [] True]
          in case check_for_fatal_errors terminal_width m of
               Inl e \<Rightarrow> (es, Some (PyError e))
             | Inr (es', fatal) \<Rightarrow>
                 (let sync_err_list = m_sync_errors m
                  in if length sync_err_list > 0 then
                       (let headers = [''PATH'', ''ERROR''];
                            col0 = map (\<lambda>(dbx_path, title, message). [CHR 0x27] @ dbx_path @ [CHR 0x27]) sync_err_list;
                            col1 = map (\<lambda>(dbx_path, title, message). title @ ''. '' @ message) sync_err_list
                        in case snd (format_table ((\<lambda>_. [])(0 := col0, 1 := col1)) terminal_width None
                                       (Some [0, 1]) (Some headers) 2 None True) of
                             Inl e \<Rightarrow> (es @ es', Some (PyError e))
                           | Inr table \<Rightarrow> (es @ es' @ [Echo table True, Echo [] True], None))
                     else (es @ es', None))))
       ([Echo not_running_msg True], None)"

text \<open>Lines 690 to 709.\<close>

definition file_status :: "int \<Rightarrow> string \<Rightarrow> proxy option \<Rightarrow> outcome" where
  "file_status terminal_width local_path daemon =
     except_CommunicationError
       (with_proxy daemon (\<lambda>m.
          case check_for_fatal_errors terminal_width m of
            Inl e \<Rightarrow> ([], Some (PyError e))
          | Inr (es, fatal) \<Rightarrow>
              if fatal then (es, None)
              else (es @ [GetFileStatus local_path, Echo (m_file_status m local_path) True], None)))
       ([Echo ''unwatched'' True], None)"

text \<open>
  The live view of \<open>activity\<close>. One pass of its loop reads the daemon and the keyboard;
  the answers of a pass are a tick: what the daemon reports (\<open>None\<close> when it can no
  longer be reached) and the key that \<open>getch\<close> returns.
\<close>

record snapshot =
  uploading :: "(string \<times> string) list"  \<comment> \<open>\<open>dbx_path\<close> and \<open>status\<close> of every entry\<close>
  downloading :: "(string \<times> string) list"
  cur_status :: string  \<comment> \<open>\<open>m.status\<close>\<close>
  n_sync_errors :: nat  \<comment> \<open>\<open>len(m.sync_errors)\<close>\<close>

type_synonym tick = "snapshot option \<times> int"

datatype loop_end =
    Quit  \<comment> \<open>the \<open>break\<close> of line 778\<close>
  | Lost  \<comment> \<open>a proxy call raised \<open>CommunicationError\<close>\<close>
  | Pending  \<comment> \<open>the loop is still running after the given ticks\<close>

text \<open>\<open>os.path.basename\<close> of a POSIX path.\<close>

definition basename :: "string \<Rightarrow> string" where
  "basename p = rev (takeWhile (\<lambda>c. c \<noteq> CHR ''/'') (rev p))"

text \<open>Lines 737 to 765: the lines of the screen.\<close>

definition activity_lines :: "snapshot \<Rightarrow> string list" where
  "activity_lines sn =
     (let up = uploading sn; down = downloading sn;
          lines = [''Status: '' @ cur_status sn @ '', Sync errors: '' @ str_nat (n_sync_errors sn),
                   ''Uploading: '' @ str_nat (length up) @ '', Downloading: '' @ str_nat (length down),
                   []];
          up' = (''UPLOADING'', ''STATUS'') # up @ [([], [])];
          down' = (''DOWNLOADING'', ''STATUS'') # down;
          file_names = map (\<lambda>(dbx_path, st). basename dbx_path) (up' @ down');
          states = map (\<lambda>(dbx_path, st). st) (up' @ down');
          col_len = fold (\<lambda>filename col_len. max (int (length filename)) col_len) file_names 0
      in lines @ map (\<lambda>(fn, s). ljust fn (col_len + 2) @ s) (zip file_names states))"

text \<open>
  Lines 733 to 780, the loop \<open>while True\<close> over the ticks: the events and how the loop
  ended. \<open>ord('q')\<close> is 113.
\<close>

fun curses_loop :: "tick list \<Rightarrow> event list \<times> loop_end" where
  "curses_loop [] = ([], Pending)"
| "curses_loop ((None, key) # ticks) = ([GetActivity], Lost)"
| "curses_loop ((Some sn, key) # ticks) =
     (let es = [GetActivity, Clear, Addstr (join [CHR 0x0A] (activity_lines sn)), Refresh, Getch key]
      in if key = 113 then (es, Quit)
         else if key < 0 then (let (es', r) = curses_loop ticks in (es @ [Sleep 1] @ es', r))
         else (let (es', r) = curses_loop ticks in (es @ es', r)))"

text \<open>Lines 714 to 786; \<open>None\<close> when the loop has not ended with the given ticks.\<close>

definition activity :: "int \<Rightarrow> tick list \<Rightarrow> proxy option \<Rightarrow> outcome option" where
  "activity terminal_width ticks daemon =
     (case MaestralProxy daemon of
        Inl CommunicationError \<Rightarrow> Some ([Echo not_running_msg True], None)
      | Inl e \<Rightarrow> Some ([], Some e)
      | Inr m \<Rightarrow>
          (case check_for_fatal_errors terminal_width m of
             Inl e \<Rightarrow> Some ([], Some (PyError e))
           | Inr (es, fatal) \<Rightarrow>
               if fatal then Some (es, None)
               else (case curses_loop ticks of
                       (les, Quit) \<Rightarrow> Some (es @ [UseDefaultColors, Nodelay] @ les, None)
                     | (les, Lost) \<Rightarrow>
                         Some (es @ [UseDefaultColors, Nodelay] @ les @ [Echo not_running_msg True], None)
                     | (les, Pending) \<Rightarrow> None)))"

definition rebuild_index_msg :: string where
  "rebuild_index_msg =
     ''Rebuilding the index may take several minutes, depending on the size of '' @
     ''your Dropbox. Any changes to local files will be synced once rebuilding '' @
     ''has completed. If you stop the daemon during the process, rebuilding '' @
     ''will start again on the next launch.''"

text \<open>Lines 922 to 951; \<open>continue\<close> is the answer to the confirmation.\<close>

definition rebuild_index :: "int \<Rightarrow> bool \<Rightarrow> proxy option \<Rightarrow> outcome" where
  "rebuild_index terminal_width continue daemon =
     except_CommunicationError
       (with_proxy daemon (\<lambda>m.
          case textwrap_fill rebuild_index_msg terminal_width of
            Inl e \<Rightarrow> ([], Some (PyError e))
          | Inr msg \<Rightarrow>
              (let es = [Echo (msg @ [CHR 0x0A]) True, Confirm ''Do you want to continue?'']
               in if continue then (es @ [RebuildIndex], None) else (es, Some Abort))))
       ([Echo not_running_msg True], None)"

text \<open>Lines 1149 to 1168.\<close>

definition excluded_remove :: "int \<Rightarrow> string \<Rightarrow> proxy option \<Rightarrow> outcome" where
  "excluded_remove terminal_width dropbox_path daemon =
     (let dropbox_path = (if \<not> (dropbox_path \<noteq> [] \<and> hd dropbox_path = CHR ''/'')
                          then ''/'' @ dropbox_path else dropbox_path)
      in if dropbox_path = ''/''
         then ([Echo (style ''The root directory is always included.'' red) True], None)
         else except_CommunicationError
                (with_proxy daemon (\<lambda>m.
                   case check_for_fatal_errors terminal_width m of
                     Inl e \<Rightarrow> ([], Some (PyError e))
                   | Inr (es, fatal) \<Rightarrow>
                       if fatal then (es, None)
                       else (es @ [IncludeItem dropbox_path,
                                   Echo (''Included '' @ [CHR 0x27] @ dropbox_path @ [CHR 0x27]
                                         @ ''. Now downloading...'') True], None)))
                ([], Some (ClickException ''Maestral daemon must be running to download folders.'')))"

text \<open>Lines 1270 to 1283, a \<open>try\<close> with an \<open>else\<close> branch.\<close>

definition notify_snooze :: "nat \<Rightarrow> proxy option \<Rightarrow> outcome" where
  "notify_snooze minutes daemon =
     (case with_proxy daemon (\<lambda>m. ([SetNotificationSnooze minutes], None)) of
        (es, Some CommunicationError) \<Rightarrow> (es @ [Echo not_running_msg True], None)
      | (es, Some e) \<Rightarrow> (es, Some e)
      | (es, None) \<Rightarrow>
          if minutes > 0
          then (es @ [Echo (''Notifications snoozed for '' @ str_nat minutes @ '' min. ''
                            @ ''Set snooze to 0 to reset.'') True], None)
          else (es @ [Echo ''Notifications enabled.'' True], None))"

text \<open>An example of a snapshot and of four ticks.\<close>

definition example_snapshot :: snapshot where
  "example_snapshot = \<lparr>uploading = [(''/a/b.txt'', ''uploading'')], downloading = [],
     cur_status = ''Syncing'', n_sync_errors = 0\<rparr>"

definition example_ticks :: "tick list" where
  "example_ticks = [(Some example_snapshot, - 1), (Some example_snapshot, 97),
                    (Some example_snapshot, 113), (None, 5)]"

text \<open>The pairs of events that follow each other directly in a list of events.\<close>

definition adjacent :: "event list \<Rightarrow> (event \<times> event) list" where
  "adjacent es = zip es (tl es)"

fun is_poll :: "event \<Rightarrow> bool" where
  "is_poll (Getch key) = True"
| "is_poll _ = False"

fun is_sleep :: "event \<Rightarrow> bool" where
  "is_sleep (Sleep n) = True"
| "is_sleep _ = False"

text \<open>
  How two events may follow each other in the live view: a sleep is one time unit long
  and comes directly after a poll that found no key; a poll that found no key is
  followed by that sleep, a poll that found another key by the next reading of the
  daemon, and the poll of \<open>q\<close> by nothing; a poll comes directly after a refresh and only
  there.
\<close>

definition paced :: "event \<Rightarrow> event \<Rightarrow> bool" where
  "paced a b =
     ((is_sleep b \<longrightarrow> b = Sleep 1 \<and> (\<exists>key < 0. a = Getch key))
      \<and> (\<forall>key. a = Getch key \<longrightarrow> key \<noteq> 113 \<and> (if key < 0 then b = Sleep 1 else b = GetActivity))
      \<and> (is_poll b \<longleftrightarrow> a = Refresh))"

text \<open>
  Two notions for the wrapping proof. A list of chunks is \<open>alternating\<close> when of any two
  neighbours one is blank (as the white-space runs and words of a text without hyphens
  are), and \<open>wrappable\<close> to a width when moreover no chunk is empty and every chunk that
  is not blank fits in the width, so that no word has to be broken.
\<close>

fun alternating :: "string list \<Rightarrow> bool" where
  "alternating [] = True"
| "alternating [c] = True"
| "alternating (c # d # cs) = ((blank c \<or> blank d) \<and> alternating (d # cs))"

definition wrappable :: "nat \<Rightarrow> string list \<Rightarrow> bool" where
  "wrappable width chunks =
     (list_all (\<lambda>c. c \<noteq> [] \<and> (blank c \<or> length c \<le> width)) chunks \<and> alternating chunks)"

text \<open>An alignment tag other than \<open>LEFT\<close>, \<open>CENTER\<close> and \<open>RIGHT\<close>.\<close>

definition bad_tag :: "int \<Rightarrow> bool" where
  "bad_tag a = (a \<noteq> LEFT \<and> a \<noteq> CENTER \<and> a \<noteq> RIGHT)"

section \<open>Rounding\<close>

lemma py_round_of_int: "py_round (of_int n) = n"
  by (simp add: py_round_def)

lemma py_round_upper: "of_int (py_round x) \<le> x + 1 / 2"
proof -
  define f where "f = \<lfloor>x\<rfloor>"
  have "of_int f \<le> x" "x < of_int f + 1"
    unfolding f_def by linarith+
  then show ?thesis
    unfolding py_round_def Let_def f_def [symmetric]
    by (simp split: if_splits)
qed

lemma py_round_lower: "x - 1 / 2 \<le> of_int (py_round x)"
proof -
  define f where "f = \<lfloor>x\<rfloor>"
  have "of_int f \<le> x" "x < of_int f + 1"
    unfolding f_def by linarith+
  then show ?thesis
    unfolding py_round_def Let_def f_def [symmetric]
    by (simp split: if_splits)
qed

lemma py_round_abs: "\<bar>of_int (py_round x) - x\<bar> \<le> 1 / 2"
  using py_round_upper [of x] py_round_lower [of x] by linarith

section \<open>Doubles\<close>

lemma pow2_power_int: "pow2 e = power_int 2 e"
  by (simp add: pow2_def power_int_def field_simps)

lemma pow2_pos: "0 < pow2 e"
  by (simp add: pow2_power_int)

lemma pow2_add: "pow2 (a + b) = pow2 a * pow2 b"
  by (simp add: pow2_power_int power_int_add)

lemma pow2_diff: "pow2 (a - b) = pow2 a / pow2 b"
  by (simp add: pow2_power_int power_int_diff)

lemma pow2_nat: "pow2 (int n) = 2 ^ n"
  by (simp add: pow2_def)

lemma pow2_mono: "a \<le> b \<Longrightarrow> pow2 a \<le> pow2 b"
  by (simp add: pow2_power_int power_int_increasing)

lemma pow2_less_cancel: "pow2 a < pow2 b \<Longrightarrow> a < b"
  using pow2_mono [of b a] by (cases "a < b") auto

lemma pow2_half: "pow2 p / 2 = pow2 (p - 1)"
  using pow2_add [of "p - 1" 1] by (simp add: pow2_def)

lemma bit_length_bounds: "0 < n \<Longrightarrow> 2 ^ (bit_length n - 1) \<le> n \<and> n < 2 ^ bit_length n"
proof (induction n rule: bit_length.induct)
  case (1 n)
  show ?case
  proof (cases "n = 1")
    case True
    then show ?thesis
      by (simp add: bit_length.simps [of 1] bit_length.simps [of 0])
  next
    case False
    with "1.prems" have h: "0 < n div 2" by simp
    with "1.IH" "1.prems" have ih: "2 ^ (bit_length (n div 2) - 1) \<le> n div 2" "n div 2 < 2 ^ bit_length (n div 2)"
      by simp_all
    have pos: "0 < bit_length (n div 2)"
      using h by (subst bit_length.simps) simp
    have bl: "bit_length n = Suc (bit_length (n div 2))"
      using "1.prems" by (subst bit_length.simps) simp
    have "2 ^ (bit_length n - 1) = (2::int) * 2 ^ (bit_length (n div 2) - 1)"
      using pos by (cases "bit_length (n div 2)") (simp_all add: bl)
    also have "\<dots> \<le> 2 * (n div 2)"
      using ih(1) by simp
    also have "\<dots> \<le> n" by simp
    finally have a: "2 ^ (bit_length n - 1) \<le> n" .
    have "n < 2 * (n div 2) + 2" by presburger
    also have "\<dots> \<le> 2 * 2 ^ bit_length (n div 2)"
      using ih(2) by simp
    finally have "n < 2 ^ bit_length n"
      by (simp add: bl)
    with a show ?thesis by simp
  qed
qed

lemma quotient_of_abs:
  assumes "q \<noteq> 0" "quotient_of \<bar>q\<bar> = (a, b)"
  shows "0 < a" "0 < b" "\<bar>q\<bar> = of_int a / of_int b"
proof -
  from assms(2) show b: "0 < b"
    by (rule quotient_of_denom_pos)
  from assms(2) show eq: "\<bar>q\<bar> = of_int a / of_int b"
    by (rule quotient_of_div)
  from assms(1) have "0 < \<bar>q\<bar>" by simp
  with eq b show "0 < a"
    by (simp add: zero_less_divide_iff)
qed

lemma exponent_bounds:
  assumes "q \<noteq> 0"
  shows "pow2 (exponent q) \<le> \<bar>q\<bar>" and "\<bar>q\<bar> < pow2 (exponent q + 1)"
proof -
  obtain a b where qo: "quotient_of \<bar>q\<bar> = (a, b)"
    by (cases "quotient_of \<bar>q\<bar>") auto
  from quotient_of_abs [OF assms qo] have a: "0 < a" and b: "0 < b" and q: "\<bar>q\<bar> = of_int a / of_int b"
    by simp_all
  define la where "la = bit_length a"
  define lb where "lb = bit_length b"
  from bit_length_bounds [OF a] have a1: "2 ^ (la - 1) \<le> a" and a2: "a < 2 ^ la"
    by (simp_all add: la_def)
  from bit_length_bounds [OF b] have b1: "2 ^ (lb - 1) \<le> b" and b2: "b < 2 ^ lb"
    by (simp_all add: lb_def)
  have lapos: "0 < la"
    using a by (simp add: la_def bit_length.simps [of a])
  have lbpos: "0 < lb"
    using b by (simp add: lb_def bit_length.simps [of b])
  have ra1: "(2::rat) ^ (la - 1) \<le> of_int a"
    using a1 by (metis of_int_le_iff of_int_numeral of_int_power)
  have ra2: "(of_int a :: rat) < 2 ^ la"
    using a2 by (metis of_int_less_iff of_int_numeral of_int_power)
  have rb1: "(2::rat) ^ (lb - 1) \<le> of_int b"
    using b1 by (metis of_int_le_iff of_int_numeral of_int_power)
  have rb2: "(of_int b :: rat) < 2 ^ lb"
    using b2 by (metis of_int_less_iff of_int_numeral of_int_power)
  have bpos: "(0::rat) < of_int b" using b by simp
  have low: "pow2 (int la - int lb - 1) \<le> \<bar>q\<bar>"
  proof -
    have "int la - int lb - 1 = int (la - 1) - int lb"
      using lapos by simp
    then have "pow2 (int la - int lb - 1) = pow2 (int (la - 1)) / pow2 (int lb)"
      by (simp only: pow2_diff)
    also have "\<dots> = 2 ^ (la - 1) / 2 ^ lb"
      by (simp only: pow2_nat)
    also have "\<dots> \<le> of_int a / (2 ^ lb :: rat)"
      by (rule divide_right_mono [OF ra1]) simp
    also have "\<dots> \<le> of_int a / of_int b"
    proof (rule divide_left_mono)
      show "(of_int b :: rat) \<le> 2 ^ lb" using rb2 by (rule less_imp_le)
      show "(0::rat) \<le> of_int a" using a by simp
      show "(0::rat) < 2 ^ lb * of_int b" using bpos by simp
    qed
    finally show ?thesis by (simp add: q)
  qed
  have up: "\<bar>q\<bar> < pow2 (int la - int lb + 1)"
  proof -
    have "of_int a / of_int b < (2 ^ la :: rat) / of_int b"
      by (rule divide_strict_right_mono [OF ra2 bpos])
    also have "\<dots> \<le> (2::rat) ^ la / 2 ^ (lb - 1)"
    proof (rule divide_left_mono)
      show "(2::rat) ^ (lb - 1) \<le> of_int b" by (rule rb1)
      show "(0::rat) \<le> 2 ^ la" by simp
      show "(0::rat) < of_int b * 2 ^ (lb - 1)" using bpos by simp
    qed
    also have "\<dots> = pow2 (int la) / pow2 (int (lb - 1))"
      by (simp only: pow2_nat)
    also have "\<dots> = pow2 (int la - int (lb - 1))"
      by (simp only: pow2_diff)
    also have "int la - int (lb - 1) = int la - int lb + 1"
      using lbpos by simp
    finally show ?thesis by (simp add: q)
  qed
  have ex: "exponent q = (if pow2 (int la - int lb) \<le> \<bar>q\<bar> then int la - int lb else int la - int lb - 1)"
    by (simp add: exponent_def qo la_def lb_def Let_def)
  show "pow2 (exponent q) \<le> \<bar>q\<bar>"
    using low by (simp add: ex)
  show "\<bar>q\<bar> < pow2 (exponent q + 1)"
    using up by (auto simp: ex)
qed

lemma exponent_less: "q \<noteq> 0 \<Longrightarrow> \<bar>q\<bar> < pow2 k \<Longrightarrow> exponent q < k"
  using exponent_bounds(1) [of q] by (intro pow2_less_cancel) simp

lemma double_zero: "double 0 = 0"
  by (simp add: double_def)

lemma double_error:
  assumes "\<bar>q\<bar> < pow2 k" "- 1022 < k"
  shows "\<bar>double q - q\<bar> \<le> pow2 (k - 54)"
proof (cases "q = 0")
  case True
  then show ?thesis
    using pow2_pos [of "k - 54"] by (simp add: double_zero)
next
  case False
  define p where "p = max (exponent q) (- 1022) - 52"
  from exponent_less [OF False assms(1)] assms(2) have p: "p \<le> k - 53"
    by (simp add: p_def)
  have d: "double q = of_int (py_round (q / pow2 p)) * pow2 p"
    using False by (simp add: double_def p_def Let_def)
  have pp: "0 < pow2 p" by (rule pow2_pos)
  have "double q - q = (of_int (py_round (q / pow2 p)) - q / pow2 p) * pow2 p"
    using pp by (simp add: d algebra_simps)
  then have "\<bar>double q - q\<bar> = \<bar>of_int (py_round (q / pow2 p)) - q / pow2 p\<bar> * pow2 p"
    using pp by (simp add: abs_mult)
  also have "\<dots> \<le> (1 / 2) * pow2 p"
    using py_round_abs [of "q / pow2 p"] pp by (intro mult_right_mono) simp_all
  also have "\<dots> = pow2 (p - 1)"
    using pow2_half [of p] by simp
  also have "\<dots> \<le> pow2 (k - 54)"
    using p by (intro pow2_mono) simp
  finally show ?thesis .
qed

lemma double_of_int:
  assumes "\<bar>w\<bar> < 2 ^ 53"
  shows "double (of_int w) = of_int w"
proof (cases "w = 0")
  case True
  then show ?thesis by (simp add: double_zero)
next
  case False
  define q :: rat where "q = of_int w"
  have q0: "q \<noteq> 0" using False by (simp add: q_def)
  have "\<bar>q\<bar> = of_int \<bar>w\<bar>" by (simp add: q_def)
  also have "\<dots> < of_int (2 ^ 53)"
    using assms by (simp only: of_int_less_iff)
  also have "\<dots> = pow2 53"
    by (simp add: pow2_def)
  finally have "exponent q < 53"
    using q0 by (intro exponent_less)
  define p where "p = max (exponent q) (- 1022) - 52"
  with \<open>exponent q < 53\<close> have p: "p \<le> 0" by simp
  have d: "double q = of_int (py_round (q / pow2 p)) * pow2 p"
    using q0 by (simp add: double_def p_def Let_def)
  have "pow2 p * pow2 (- p) = 1"
    using pow2_add [of p "- p"] by (simp add: pow2_def)
  moreover have mp: "pow2 (- p) = of_int (2 ^ nat (- p))"
    using p by (simp add: pow2_def)
  ultimately have "q / pow2 p = of_int (w * 2 ^ nat (- p))"
    using pow2_pos [of p] by (simp add: q_def field_simps)
  then have "of_int (py_round (q / pow2 p)) * pow2 p = (of_int (w * 2 ^ nat (- p)) :: rat) * pow2 p"
    by (simp only: py_round_of_int)
  also have "\<dots> = of_int w * (pow2 (- p) * pow2 p)"
    by (simp add: mp)
  also have "pow2 (- p) * pow2 p = 1"
    using pow2_add [of "- p" p] by (simp add: pow2_def)
  finally have "double q = of_int w"
    by (simp add: d)
  then show ?thesis
    by (simp add: q_def)
qed

lemma round_double_Inr:
  assumes "\<bar>q\<bar> < pow2 k" "- 1022 < k" "k \<le> 1023"
  shows "round_double q = Inr (double q)"
proof (cases "double q = 0")
  case True
  then show ?thesis by (simp add: round_double_def)
next
  case False
  have "\<bar>double q\<bar> \<le> \<bar>q\<bar> + \<bar>double q - q\<bar>" by linarith
  also have "\<dots> < pow2 k + pow2 (k - 54)"
    using assms(1) double_error [OF assms(1,2)] by linarith
  also have "\<dots> \<le> pow2 k + pow2 k"
    using pow2_mono [of "k - 54" k] by simp
  also have "\<dots> = pow2 (k + 1)"
    using pow2_add [of k 1] by (simp add: pow2_def)
  also have "\<dots> \<le> pow2 1024"
    using assms(3) by (intro pow2_mono) simp
  finally have "exponent (double q) < 1024"
    using False by (intro exponent_less)
  then show ?thesis
    by (simp add: round_double_def Let_def)
qed

lemma round_double_iff:
  "round_double q = Inr x \<longleftrightarrow> x = double q \<and> \<bar>x\<bar> < 2 ^ 1024"
proof (cases "double q = 0")
  case True
  then show ?thesis by (auto simp: round_double_def)
next
  case False
  have p: "pow2 1024 = 2 ^ 1024"
    using pow2_nat [of 1024] by simp
  have "exponent (double q) < 1024 \<longleftrightarrow> \<bar>double q\<bar> < pow2 1024"
  proof
    assume "exponent (double q) < 1024"
    then have "pow2 (exponent (double q) + 1) \<le> pow2 1024"
      by (intro pow2_mono) simp
    with exponent_bounds(2) [OF False] show "\<bar>double q\<bar> < pow2 1024" by linarith
  next
    assume "\<bar>double q\<bar> < pow2 1024"
    with False show "exponent (double q) < 1024" by (intro exponent_less)
  qed
  then show ?thesis
    using False unfolding p by (auto simp: round_double_def Let_def)
qed

section \<open>Loops with raises\<close>

lemma map_err_length: "map_err f xs = Inr ys \<Longrightarrow> length ys = length xs"
  by (induction xs arbitrary: ys) (auto split: sum.splits)

lemma map_err_nth: "map_err f xs = Inr ys \<Longrightarrow> i < length xs \<Longrightarrow> f (xs ! i) = Inr (ys ! i)"
proof (induction xs arbitrary: ys i)
  case Nil
  then show ?case by simp
next
  case (Cons x xs)
  then show ?case
    by (cases i) (auto split: sum.splits)
qed

lemma map_err_Inl: "map_err f xs = Inl e \<Longrightarrow> \<exists>x \<in> set xs. f x = Inl e"
  by (induction xs) (auto split: sum.splits)

lemma map_err_Inr_iff: "(\<exists>ys. map_err f xs = Inr ys) \<longleftrightarrow> (\<forall>x \<in> set xs. \<exists>y. f x = Inr y)"
  by (induction xs) (auto split: sum.splits)

lemma natural_widths_length: "natural_widths columns = Inr ws \<Longrightarrow> length ws = length columns"
  unfolding natural_widths_def by (rule map_err_length)

lemma map_err_map: "\<forall>x \<in> set xs. f x = Inr (g x) \<Longrightarrow> map_err f xs = Inr (map g xs)"
  by (induction xs) simp_all

section \<open>The natural widths\<close>

lemma py_max_longest: "col \<noteq> [] \<Longrightarrow> py_max (map (\<lambda>cell. int (length cell)) col) = Inr (longest_cell col)"
proof -
  assume "col \<noteq> []"
  then obtain c cs where col: "col = c # cs" by (cases col) auto
  have "Max (set (int (length c) # map (\<lambda>cell. int (length cell)) cs))
          = fold max (map (\<lambda>cell. int (length cell)) cs) (int (length c))"
    by (rule Max.set_eq_fold)
  then show ?thesis
    by (simp add: col longest_cell_def)
qed

lemma py_max_empty: "py_max (map f []) = Inl (ValueError max_empty_msg)"
  by simp

lemma natural_widths_Inr:
  "\<forall>col \<in> set columns. col \<noteq> [] \<Longrightarrow> natural_widths columns = Inr (map longest_cell columns)"
  unfolding natural_widths_def
  by (induction columns) (simp_all add: py_max_longest)


lemma longest_cell_nonneg: "col \<noteq> [] \<Longrightarrow> 0 \<le> longest_cell col"
proof -
  assume "col \<noteq> []"
  then obtain c cs where "col = c # cs" by (cases col) auto
  then have "int (length c) \<le> longest_cell col"
    by (simp add: longest_cell_def)
  then show ?thesis by linarith
qed

lemma longest_cell_pos: "cell \<in> set col \<Longrightarrow> cell \<noteq> [] \<Longrightarrow> 0 < longest_cell col"
proof -
  assume a: "cell \<in> set col" "cell \<noteq> []"
  then have "int (length cell) \<le> longest_cell col"
    by (auto simp: longest_cell_def intro!: Max_ge)
  with a(2) show ?thesis by (cases cell) auto
qed

lemma sum_cubes_pos:
  assumes "\<forall>w \<in> set ws. (0::int) \<le> w" "\<exists>w \<in> set ws. 0 < w"
  shows "0 < sum_list (map (\<lambda>w. w ^ 3) ws)"
  using assms
proof (induction ws)
  case Nil
  then show ?case by simp
next
  case (Cons w ws)
  have nn: "0 \<le> sum_list (map (\<lambda>w. w ^ 3) ws)"
    using Cons.prems(1) by (auto intro!: sum_list_nonneg)
  show ?case
  proof (cases "0 < w")
    case True
    then have "0 < w ^ 3" by simp
    from add_pos_nonneg [OF this nn] show ?thesis by simp
  next
    case False
    with Cons.prems have "w = 0" "\<exists>w \<in> set ws. 0 < w" by auto
    with Cons.IH Cons.prems(1) show ?thesis by simp
  qed
qed

lemma longest_cell_less:
  assumes "col \<noteq> []" "\<forall>cell \<in> set col. int (length cell) < b"
  shows "longest_cell col < b"
proof -
  have "Max (set (map (\<lambda>cell. int (length cell)) col)) \<in> set (map (\<lambda>cell. int (length cell)) col)"
    using assms(1) by (intro Max_in) simp_all
  with assms(2) show ?thesis
    by (auto simp: longest_cell_def)
qed

lemma cube_le_sum_list:
  "\<forall>x \<in> set ws. (0::int) \<le> x \<Longrightarrow> w \<in> set ws \<Longrightarrow> w ^ 3 \<le> sum_list (map (\<lambda>w. w ^ 3) ws)"
proof (induction ws)
  case Nil
  then show ?case by simp
next
  case (Cons x ws)
  have nn: "0 \<le> sum_list (map (\<lambda>w. w ^ 3) ws)"
    using Cons.prems(1) by (auto intro!: sum_list_nonneg)
  have x: "0 \<le> x ^ 3"
    using Cons.prems(1) by simp
  show ?case
  proof (cases "w = x")
    case True
    with nn show ?thesis by simp
  next
    case False
    with Cons have "w ^ 3 \<le> sum_list (map (\<lambda>w. w ^ 3) ws)" by simp
    with x have "w ^ 3 \<le> x ^ 3 + sum_list (map (\<lambda>w. w ^ 3) ws)" by linarith
    then show ?thesis by simp
  qed
qed


section \<open>The shrinking of a column\<close>

lemma shrink_width_close:
  fixes k :: nat
  assumes w: "0 \<le> w" "w < 2 ^ k" and s: "0 \<le> s" "s < 2 ^ k" and k: "k \<le> 50"
    and c: "w ^ 3 \<le> c" "0 < c"
  shows "shrink_width s c w
           = Inr (py_round (double (of_int w - double (of_int (s * w ^ 3) / of_int c))))"
    and "\<bar>of_int (py_round (double (of_int w - double (of_int (s * w ^ 3) / of_int c))))
           - (of_int w - of_int (s * w ^ 3) / of_int c)\<bar> \<le> (1 / 2 + 1 / 2 ^ (51 - k) :: rat)"
proof -
  define q :: rat where "q = of_int (s * w ^ 3) / of_int c"
  define y where "y = double q"
  define z where "z = of_int w - y"
  define d where "d = double z"
  have cpos: "(0::rat) < of_int c" using c(2) by simp
  have q0: "0 \<le> q"
    using w(1) s(1) c(2) by (simp add: q_def zero_le_divide_iff)
  have "s * w ^ 3 \<le> s * c"
    using c(1) s(1) by (rule mult_left_mono)
  then have "(of_int (s * w ^ 3) :: rat) \<le> of_int (s * c)"
    by (simp only: of_int_le_iff)
  then have "q \<le> of_int s"
    using cpos by (simp add: q_def field_simps)
  moreover have "(of_int s :: rat) < 2 ^ k"
    using s(2) by simp
  ultimately have qk: "\<bar>q\<bar> < pow2 (int k)"
    using q0 unfolding pow2_nat by linarith
  have "(of_int w :: rat) < 2 ^ k"
    using w(2) by simp
  moreover have "(0::rat) \<le> of_int w"
    using w(1) by simp
  ultimately have wk: "\<bar>of_int w :: rat\<bar> < pow2 (int k)"
    unfolding pow2_nat by linarith
  have kk: "- 1022 < int k" "int k \<le> 1023" "- 1022 < int k + 2" "int k + 2 \<le> 1023"
    using k by simp_all
  have ry: "round_double q = Inr y"
    unfolding y_def using qk kk(1,2) by (rule round_double_Inr)
  have ey: "\<bar>y - q\<bar> \<le> pow2 (int k - 54)"
    unfolding y_def using qk kk(1) by (rule double_error)
  have "(2::int) ^ k \<le> 2 ^ 50"
    using k by (intro power_increasing) simp_all
  with w have "\<bar>w\<bar> < 2 ^ 53" by simp
  then have dw: "double (of_int w) = of_int w"
    by (rule double_of_int)
  have rx: "round_double (of_int w) = Inr (of_int w)"
    using round_double_Inr [OF wk kk(1,2)] by (simp add: dw)
  have "pow2 (int k - 54) \<le> pow2 (int k)"
    by (intro pow2_mono) simp
  then have "\<bar>z\<bar> < 3 * pow2 (int k)"
    using wk qk ey unfolding z_def by linarith
  also have "\<dots> \<le> pow2 (int k + 2)"
    using pow2_add [of "int k" 2] pow2_pos [of "int k"] by (simp add: pow2_def)
  finally have zk: "\<bar>z\<bar> < pow2 (int k + 2)" .
  have rz: "round_double z = Inr d"
    unfolding d_def using zk kk(3,4) by (rule round_double_Inr)
  have ez: "\<bar>d - z\<bar> \<le> pow2 (int k - 52)"
    using double_error [OF zk kk(3)] by (simp add: d_def)
  from c(2) have "c \<noteq> 0" by simp
  then have sw: "shrink_width s c w = Inr (py_round d)"
    unfolding shrink_width_def q_def [symmetric]
    by (simp add: ry rx z_def [symmetric] rz)
  then show "shrink_width s c w
           = Inr (py_round (double (of_int w - double (of_int (s * w ^ 3) / of_int c))))"
    by (simp add: d_def z_def y_def q_def)
  have "pow2 (int k - 54) \<le> pow2 (int k - 52)"
    by (intro pow2_mono) simp
  moreover have "pow2 (int k - 52) + pow2 (int k - 52) = pow2 (int k - 51)"
    using pow2_add [of "int k - 52" 1] by (simp add: pow2_def)
  moreover have "pow2 (int k - 51) = 1 / 2 ^ (51 - k)"
  proof -
    have "int k - 51 = 0 - int (51 - k)" using k by simp
    then have "pow2 (int k - 51) = pow2 0 / pow2 (int (51 - k))"
      by (simp only: pow2_diff)
    then show ?thesis by (simp add: pow2_nat pow2_def)
  qed
  ultimately have "\<bar>of_int (py_round d) - (of_int w - q)\<bar> \<le> 1 / 2 + 1 / 2 ^ (51 - k)"
    using py_round_abs [of d] ey ez unfolding z_def by linarith
  then show "\<bar>of_int (py_round (double (of_int w - double (of_int (s * w ^ 3) / of_int c))))
           - (of_int w - of_int (s * w ^ 3) / of_int c)\<bar> \<le> (1 / 2 + 1 / 2 ^ (51 - k) :: rat)"
    by (simp add: d_def z_def y_def q_def)
qed

lemma shrink_width_zero:
  assumes "\<bar>w\<bar> < 2 ^ 53" "c \<noteq> 0"
  shows "shrink_width 0 c w = Inr w"
proof -
  have z: "round_double 0 = Inr 0"
    by (simp add: round_double_def double_zero)
  have "(of_int \<bar>w\<bar> :: rat) < 2 ^ 53"
    using assms(1) by simp
  moreover have "pow2 53 = 2 ^ 53"
    using pow2_nat [of 53] by simp
  ultimately have "\<bar>of_int w :: rat\<bar> < pow2 53"
    by simp
  from round_double_Inr [OF this] have "round_double (of_int w) = Inr (of_int w)"
    by (simp add: double_of_int [OF assms(1)])
  with assms(2) z show ?thesis
    by (simp add: shrink_width_def py_round_of_int)
qed

lemma shrink_widths_close:
  fixes k :: nat
  assumes b: "\<forall>w \<in> set ws. 0 \<le> w \<and> w < 2 ^ k"
    and c: "sum_list (map (\<lambda>w. w ^ 3) ws) \<noteq> 0"
    and s: "sum_list ws - (tw - pad * int (length ws)) < 2 ^ k"
    and k: "k \<le> 50"
  shows "shrink_widths tw pad ws =
     Inr (map (\<lambda>w. py_round (double (of_int w
                 - double (of_int (max (sum_list ws - (tw - pad * int (length ws))) 0 * w ^ 3)
                     / of_int (sum_list (map (\<lambda>w. w ^ 3) ws))))))
            ws)"
proof -
  define su where "su = max (sum_list ws - (tw - pad * int (length ws))) 0"
  define cu where "cu = sum_list (map (\<lambda>w. w ^ 3) ws)"
  have "0 \<le> cu"
    unfolding cu_def using b by (intro sum_list_nonneg) auto
  with c have cu: "0 < cu"
    by (simp add: cu_def)
  have su: "0 \<le> su" "su < 2 ^ k"
    using s by (simp_all add: su_def)
  have "\<forall>w \<in> set ws. shrink_width su cu w
      = Inr (py_round (double (of_int w - double (of_int (su * w ^ 3) / of_int cu))))"
  proof
    fix w assume w: "w \<in> set ws"
    with b have w0: "0 \<le> w" and wk: "w < 2 ^ k" by auto
    have "w ^ 3 \<le> cu"
      unfolding cu_def using b w by (intro cube_le_sum_list) auto
    from shrink_width_close(1) [OF w0 wk su k this cu]
    show "shrink_width su cu w
      = Inr (py_round (double (of_int w - double (of_int (su * w ^ 3) / of_int cu))))" .
  qed
  from map_err_map [OF this] show ?thesis
    unfolding shrink_widths_def Let_def su_def cu_def .
qed


section \<open>Width conservation\<close>








section \<open>The width formula\<close>

text \<open>
  Claim C1, as the code has it. With \<open>wrap=True\<close>, for columns that all have a cell and
  of which some cell is not empty, when the cells are shorter than \<open>2 ^ k\<close> characters and
  the natural widths exceed the available width by less than \<open>2 ^ k\<close>, for a \<open>k\<close> of at most
  50: the natural width of a column is the length of its longest cell, \<open>available\<close> is
  \<open>terminal_width - padding * column_count\<close>; if the natural widths sum to at most
  \<open>available\<close>, every final width is the natural one; otherwise each final width is the
  natural width minus the double nearest to the excess times the cube of the natural
  width over the sum of the cubes, this difference rounded to a double and then to the
  nearest integer (a tie to the even one). It differs from the exact value of the
  formula by at most \<open>1 / 2 + 2 ^ (k - 51)\<close>. The widths are not clamped.
\<close>

theorem final_widths_formula:
  fixes k :: nat
  assumes "\<forall>col \<in> set columns. col \<noteq> []"
    and "\<exists>col \<in> set columns. \<exists>cell \<in> set col. cell \<noteq> []"
    and "\<forall>col \<in> set columns. \<forall>cell \<in> set col. int (length cell) < 2 ^ k"
    and "sum_list (map longest_cell columns)
           - (terminal_width - padding * int (length columns)) < 2 ^ k"
    and "k \<le> 50"
  shows "final_widths terminal_width padding True columns =
     Inr (map (\<lambda>col.
             let w = longest_cell col;
                 total = sum_list (map longest_cell columns);
                 available = terminal_width - padding * int (length columns);
                 cubes = sum_list (map (\<lambda>c. longest_cell c ^ 3) columns)
             in if total \<le> available then w
                else py_round (double (of_int w
                       - double (of_int ((total - available) * w ^ 3) / of_int cubes))))
           columns)
   \<and> (\<forall>col \<in> set columns.
         let w = longest_cell col;
             total = sum_list (map longest_cell columns);
             available = terminal_width - padding * int (length columns);
             cubes = sum_list (map (\<lambda>c. longest_cell c ^ 3) columns)
         in available < total \<longrightarrow>
            \<bar>of_int (py_round (double (of_int w
                  - double (of_int ((total - available) * w ^ 3) / of_int cubes))))
               - (of_int w - of_int ((total - available) * w ^ 3) / of_int cubes)\<bar>
              \<le> (1 / 2 + 1 / 2 ^ (51 - k) :: rat))"
proof -
  define ws where "ws = map longest_cell columns"
  define total where "total = sum_list ws"
  define available where "available = terminal_width - padding * int (length columns)"
  define cubes where "cubes = sum_list (map (\<lambda>w. w ^ 3) ws)"
  define su where "su = max (total - available) 0"
  have cubes': "sum_list (map (\<lambda>c. longest_cell c ^ 3) columns) = cubes"
    by (simp add: cubes_def ws_def comp_def)
  have nat: "natural_widths columns = Inr ws"
    unfolding ws_def using assms(1) by (rule natural_widths_Inr)
  have b: "\<forall>w \<in> set ws. 0 \<le> w \<and> w < 2 ^ k"
    using assms(1,3) by (auto simp: ws_def intro: longest_cell_nonneg longest_cell_less)
  have cu: "0 < cubes"
    unfolding cubes_def
  proof (rule sum_cubes_pos)
    show "\<forall>w \<in> set ws. 0 \<le> w"
      using b by simp
    show "\<exists>w \<in> set ws. 0 < w"
      using assms(2) by (auto simp: ws_def intro: longest_cell_pos)
  qed
  then have c: "sum_list (map (\<lambda>w. w ^ 3) ws) \<noteq> 0"
    by (simp add: cubes_def)
  have s: "sum_list ws - (terminal_width - padding * int (length ws)) < 2 ^ k"
    using assms(4) by (simp add: ws_def)
  then have su: "0 \<le> su" "su < 2 ^ k"
    by (simp_all add: su_def total_def available_def ws_def)
  have cube: "w ^ 3 \<le> cubes" if "w \<in> set ws" for w
    unfolding cubes_def using b that by (intro cube_le_sum_list) auto
  have shr: "shrink_widths terminal_width padding ws =
      Inr (map (\<lambda>w. py_round (double (of_int w - double (of_int (su * w ^ 3) / of_int cubes)))) ws)"
    using shrink_widths_close [OF b c s assms(5)]
    by (simp add: su_def total_def available_def cubes_def ws_def)
  have same: "py_round (double (of_int w - double (of_int (su * w ^ 3) / of_int cubes))) = w"
    if "w \<in> set ws" "total \<le> available" for w
  proof -
    from that(2) have z: "su = 0" by (simp add: su_def)
    from that(1) b have w0: "0 \<le> w" and wk: "w < 2 ^ k" by auto
    have "(2::int) ^ k \<le> 2 ^ 50"
      using assms(5) by (intro power_increasing) simp_all
    with w0 wk have "\<bar>w\<bar> < 2 ^ 53" by simp
    from shrink_width_zero [OF this] cu have "shrink_width 0 cubes w = Inr w" by simp
    with shrink_width_close(1) [OF w0 wk su assms(5) cube [OF that(1)] cu] show ?thesis
      by (simp add: z)
  qed
  have first: "final_widths terminal_width padding True columns =
     Inr (map (\<lambda>col. if total \<le> available then longest_cell col
                else py_round (double (of_int (longest_cell col)
                       - double (of_int ((total - available) * longest_cell col ^ 3) / of_int cubes))))
           columns)"
  proof (cases "total \<le> available")
    case True
    with same have "map (\<lambda>w. py_round (double (of_int w - double (of_int (su * w ^ 3) / of_int cubes)))) ws = ws"
      by (simp add: map_idI)
    with shr True show ?thesis
      by (simp add: final_widths_def nat ws_def)
  next
    case False
    then have "su = total - available" by (simp add: su_def)
    with shr False show ?thesis
      by (simp add: final_widths_def nat ws_def comp_def)
  qed
  have second: "\<bar>of_int (py_round (double (of_int (longest_cell col)
                  - double (of_int ((total - available) * longest_cell col ^ 3) / of_int cubes))))
               - (of_int (longest_cell col) - of_int ((total - available) * longest_cell col ^ 3) / of_int cubes)\<bar>
              \<le> (1 / 2 + 1 / 2 ^ (51 - k) :: rat)"
    if "col \<in> set columns" "available < total" for col
  proof -
    from that(2) have z: "su = total - available" by (simp add: su_def)
    from that(1) have m: "longest_cell col \<in> set ws" by (simp add: ws_def)
    with b have w0: "0 \<le> longest_cell col" and wk: "longest_cell col < 2 ^ k" by auto
    from shrink_width_close(2) [OF w0 wk su assms(5) cube [OF m] cu] show ?thesis
      by (simp only: z)
  qed
  show ?thesis
    unfolding Let_def cubes' total_def [symmetric, unfolded ws_def] available_def [symmetric]
    using first second by blast
qed

theorem final_widths_formula_witness:
  "list_all (\<lambda>col. col \<noteq> []) [[''abcdef'', ''ab''], [''x'']]
   \<and> (\<exists>col \<in> set [[''abcdef'', ''ab''], [''x'']]. \<exists>cell \<in> set col. cell \<noteq> [])
   \<and> list_all (list_all (\<lambda>cell. int (length cell) < 2 ^ 3)) [[''abcdef'', ''ab''], [''x'']]
   \<and> sum_list (map longest_cell [[''abcdef'', ''ab''], [''x'']])
        - (10 - 2 * int (length [[''abcdef'', ''ab''], [''x'']])) < 2 ^ 3
   \<and> (3 :: nat) \<le> 50
   \<and> final_widths 10 2 True [[''abcdef'', ''ab''], [''x'']] = Inr [5, 1]"
proof -
  have h1: "\<forall>col \<in> set [[''abcdef'', ''ab''], [''x'']]. col \<noteq> []"
    by simp
  have h2: "\<exists>col \<in> set [[''abcdef'', ''ab''], [''x'']]. \<exists>cell \<in> set col. cell \<noteq> []"
    by simp
  have h3: "\<forall>col \<in> set [[''abcdef'', ''ab''], [''x'']]. \<forall>cell \<in> set col. int (length cell) < 2 ^ 3"
    by simp
  have lc: "longest_cell [''abcdef'', ''ab''] = 6" "longest_cell [''x''] = 1"
    by (simp_all add: longest_cell_def)
  have h4: "sum_list (map longest_cell [[''abcdef'', ''ab''], [''x'']])
        - (10 - 2 * int (length [[''abcdef'', ''ab''], [''x'']])) < 2 ^ 3"
    by (simp add: lc)
  have h5: "(3 :: nat) \<le> 50"
    by simp
  have v: "map (\<lambda>col.
             let w = longest_cell col;
                 total = sum_list (map longest_cell [[''abcdef'', ''ab''], [''x'']]);
                 available = 10 - 2 * int (length [[''abcdef'', ''ab''], [''x'']]);
                 cubes = sum_list (map (\<lambda>c. longest_cell c ^ 3) [[''abcdef'', ''ab''], [''x'']])
             in if total \<le> available then w
                else py_round (double (of_int w
                       - double (of_int ((total - available) * w ^ 3) / of_int cubes))))
           [[''abcdef'', ''ab''], [''x'']] = [5, 1]"
    by code_simp
  have w: "final_widths 10 2 True [[''abcdef'', ''ab''], [''x'']] = Inr [5, 1]"
    using final_widths_formula [OF h1 h2 h3 h4 h5, THEN conjunct1] by (simp only: v)
  have h1': "list_all (\<lambda>col. col \<noteq> []) [[''abcdef'', ''ab''], [''x'']]"
    by simp
  have h3': "list_all (list_all (\<lambda>cell. int (length cell) < 2 ^ 3)) [[''abcdef'', ''ab''], [''x'']]"
    by simp
  show ?thesis
    by (intro conjI h1' h2 h3' h4 h5 w)
qed

text \<open>
  Claim C1 as stated fails. There is no clamp: one column with the cell \<open>abcdef\<close>,
  padding 2 and a terminal of width 2 give the final width 0, and \<open>format_table\<close> then
  raises in \<open>textwrap.wrap\<close>. And the integer is the nearest one to a double, not to the
  exact value: two columns whose longest cells have 900112 and 700129 characters, with
  padding 2 in a terminal of width 1175877, get the widths 611542 and 564330, since the
  first difference is the double 611542.5, while the exact value of the formula is
  above 611542.5 and its nearest integer is 611543.
\<close>

theorem widths_not_clamped:
  "final_widths 2 2 True [[''abcdef'']] = Inr [0]
   \<and> snd (format_table ((\<lambda>_. [])(0 := [''abcdef''])) 2 None (Some [0]) None 2 None True)
       = Inl (ValueError ''invalid width (must be > 0)'')
   \<and> final_widths 1175877 2 True [[replicate 900112 (CHR ''a'')], [replicate 700129 (CHR ''b'')]]
       = Inr [611542, 564330]
   \<and> py_round (of_int 900112
        - of_int ((900112 + 700129 - (1175877 - 2 * 2)) * 900112 ^ 3)
            / of_int (900112 ^ 3 + 700129 ^ 3)) = 611543"
proof -
  have a: "final_widths 2 2 True [[''abcdef'']] = Inr [0]"
    by code_simp
  have b: "snd (format_table ((\<lambda>_. [])(0 := [''abcdef''])) 2 None (Some [0]) None 2 None True)
       = Inl (ValueError ''invalid width (must be > 0)'')"
    by code_simp
  have n: "natural_widths [[replicate 900112 (CHR ''a'')], [replicate 700129 (CHR ''b'')]]
       = Inr [900112, 700129]"
    by (simp add: natural_widths_def)
  have s: "shrink_widths 1175877 2 [900112, 700129] = Inr [611542, 564330]"
    by code_simp
  have c: "final_widths 1175877 2 True [[replicate 900112 (CHR ''a'')], [replicate 700129 (CHR ''b'')]]
       = Inr [611542, 564330]"
    by (simp add: final_widths_def n s)
  have d: "py_round (of_int 900112
        - of_int ((900112 + 700129 - (1175877 - 2 * 2)) * 900112 ^ 3)
            / of_int (900112 ^ 3 + 700129 ^ 3)) = 611543"
    by code_simp
  show ?thesis
    by (intro conjI a b c d)
qed

section \<open>The scenario of the specification\<close>

lemma render_alice: "render_table [[''alice'', ''bob''], [''30'', ''7'']] [5, 2] [0, 0] 2
    = Inr (''alice  30  '' @ [CHR 0x0A] @ ''bob    7   '')"
  by code_simp

text \<open>
  Claim C5, as the code has it. With the columns \<open>[["alice","bob"],["30","7"]]\<close>, no
  headers, \<open>padding=2\<close>, the default alignment and a terminal of width at least 11 (so
  that nothing shrinks), \<open>format_table\<close> returns the two lines \<open>alice  30\<close> and
  \<open>bob    7\<close>, each cell left-justified to its column's natural width and followed by two
  spaces, joined by one line feed, with no line feed at the end; the arguments are not
  changed.
\<close>

theorem format_table_scenario:
  assumes "st r0 = [''alice'', ''bob'']" "st r1 = [''30'', ''7'']" "11 \<le> terminal_width"
  shows "format_table st terminal_width None (Some [r0, r1]) None 2 None True
           = (st, Inr (''alice  30  '' @ [CHR 0x0A] @ ''bob    7   ''))"
proof -
  let ?cols = "[[''alice'', ''bob''], [''30'', ''7'']]"
  have prep: "prepare_columns st None (Some [r0, r1]) None = (st, Inr ?cols)"
    by (simp add: prepare_columns_def truthy_def assms)
  have nw: "natural_widths ?cols = Inr [5, 2]"
    by code_simp
  have "max (sum_list [5, 2] - (terminal_width - 2 * int (length [5 :: int, 2]))) 0 = 0"
    using assms(3) by simp
  then have "shrink_widths terminal_width 2 [5, 2] = Inr [5, 2]"
    unfolding shrink_widths_def Let_def by (simp add: shrink_width_zero)
  then have fw: "final_widths terminal_width 2 True ?cols = Inr [5, 2]"
    by (simp add: final_widths_def nw)
  have al: "resolve_alignment None (length ?cols) = Inr [0, 0]"
    by (simp add: resolve_alignment_def LEFT_def)
  have "format_columns terminal_width ?cols 2 None True
          = Inr (''alice  30  '' @ [CHR 0x0A] @ ''bob    7   '')"
    unfolding format_columns_def al fw using render_alice by simp
  then show ?thesis
    by (simp add: format_table_def prep)
qed

theorem format_table_scenario_witness:
  "((\<lambda>_. [])(0 := [''alice'', ''bob''], 1 := [''30'', ''7'']) :: store) 0 = [''alice'', ''bob'']
   \<and> ((\<lambda>_. [])(0 := [''alice'', ''bob''], 1 := [''30'', ''7'']) :: store) 1 = [''30'', ''7'']
   \<and> (11 :: int) \<le> 80
   \<and> snd (format_table ((\<lambda>_. [])(0 := [''alice'', ''bob''], 1 := [''30'', ''7''])) 80 None (Some [0, 1])
            None 2 None True)
       = Inr (''alice  30  '' @ [CHR 0x0A] @ ''bob    7   '')"
proof -
  let ?st = "(\<lambda>_. [])(0 := [''alice'', ''bob''], 1 := [''30'', ''7'']) :: store"
  have a: "?st 0 = [''alice'', ''bob'']" by simp
  have b: "?st 1 = [''30'', ''7'']" by simp
  have c: "(11 :: int) \<le> 80" by simp
  have r: "snd (format_table ?st 80 None (Some [0, 1]) None 2 None True)
       = Inr (''alice  30  '' @ [CHR 0x0A] @ ''bob    7   '')"
    by (simp only: format_table_scenario [OF a b c] snd_conv)
  show ?thesis
    by (intro conjI a b c r)
qed

text \<open>
  Claim C5 as stated fails: the text is not \<open>"alice 30 \n" + "bob   7  \n"\<close>.
\<close>

theorem scenario_output_differs:
  "snd (format_table ((\<lambda>_. [])(0 := [''alice'', ''bob''], 1 := [''30'', ''7''])) 80 None (Some [0, 1])
          None 2 None True)
     \<noteq> Inr (''alice 30 '' @ [CHR 0x0A] @ ''bob   7  '' @ [CHR 0x0A])"
  by code_simp

section \<open>What \<open>format_table\<close> does to its arguments\<close>

lemma insert_headers_store_fst:
  "fst (insert_headers_store hs i rs st) r
     = rev (map snd (filter (\<lambda>(c, h). c = r) (zip rs (drop i hs)))) @ st r"
proof (induction rs arbitrary: i st)
  case Nil
  then show ?case by simp
next
  case (Cons r' rs)
  show ?case
  proof (cases "i < length hs")
    case True
    then have d: "drop i hs = hs ! i # drop (Suc i) hs"
      by (simp add: Cons_nth_drop_Suc)
    show ?thesis
      using True by (simp add: Cons.IH d)
  next
    case False
    then show ?thesis by simp
  qed
qed

lemma insert_headers_store_snd:
  "snd (insert_headers_store hs i rs st) = (if length rs \<le> length hs - i then None else Some IndexError)"
  by (induction rs arbitrary: i st) auto

lemma prepare_columns_store_rows:
  "\<not> truthy columns \<Longrightarrow> fst (prepare_columns st rows columns headers) = st"
  by (simp add: prepare_columns_def Let_def)

lemma prepare_columns_store_columns:
  assumes "cols \<noteq> []" "hs \<noteq> []" "\<not> truthy rows"
  shows "fst (prepare_columns st rows (Some cols) (Some hs)) r
     = rev (map snd (filter (\<lambda>(c, h). c = r) (zip cols hs))) @ st r"
proof -
  have "fst (prepare_columns st rows (Some cols) (Some hs)) = fst (insert_headers_store hs 0 cols st)"
    using assms by (simp add: prepare_columns_def truthy_def split: prod.splits option.splits)
  then show ?thesis
    by (simp add: insert_headers_store_fst)
qed

lemma format_table_store: "fst (format_table st tw rows columns headers pad al wr)
    = fst (prepare_columns st rows columns headers)"
  by (simp add: format_table_def split: prod.splits sum.splits)

lemma zip_distinct_filter:
  assumes "distinct cols" "k < length cols" "k < length hs"
  shows "filter (\<lambda>(c, h). c = cols ! k) (zip cols hs) = [(cols ! k, hs ! k)]"
  using assms
proof (induction cols arbitrary: k hs)
  case Nil
  then show ?case by simp
next
  case (Cons c cols)
  obtain h hs' where hs: "hs = h # hs'"
    using Cons.prems(3) by (cases hs) auto
  show ?case
  proof (cases k)
    case 0
    have "filter (\<lambda>(c', h). c' = c) (zip cols hs') = []"
      using Cons.prems(1) by (auto simp: filter_empty_conv dest: set_zip_leftD)
    then show ?thesis
      by (simp add: 0 hs)
  next
    case (Suc k')
    then have "cols ! k' \<noteq> c"
      using Cons.prems by auto
    then show ?thesis
      using Cons.IH [of k' hs'] Cons.prems by (simp add: Suc hs)
  qed
qed

text \<open>
  Claim C10. Called with columns and headers (both non-empty) and no rows,
  \<open>format_table\<close> changes the caller's column lists in place: every list receives at its
  front the headers of the positions at which it is passed, so with distinct lists the
  \<open>k\<close>-th list receives \<open>headers[k]\<close> at position 0, and a second call with the same
  lists inserts the headers a second time. Called without columns (with rows, or with
  neither), it changes no list of the caller.
\<close>

theorem headers_mutate_columns:
  "(cols \<noteq> [] \<and> hs \<noteq> [] \<and> \<not> truthy rows \<longrightarrow>
      (\<forall>r. fst (format_table st tw rows (Some cols) (Some hs) pad al wr) r
             = rev (map snd (filter (\<lambda>(c, h). c = r) (zip cols hs))) @ st r))
   \<and> (cols \<noteq> [] \<and> hs \<noteq> [] \<and> \<not> truthy rows \<and> distinct cols \<and> k < length cols \<and> k < length hs \<longrightarrow>
        fst (format_table st tw rows (Some cols) (Some hs) pad al wr) (cols ! k) = hs ! k # st (cols ! k)
        \<and> fst (format_table (fst (format_table st tw rows (Some cols) (Some hs) pad al wr))
                  tw' rows (Some cols) (Some hs) pad' al' wr') (cols ! k)
            = hs ! k # hs ! k # st (cols ! k))
   \<and> (\<not> truthy columns \<longrightarrow> fst (format_table st tw rows columns headers pad al wr) = st)"
proof (intro conjI impI allI)
  fix r
  assume "cols \<noteq> [] \<and> hs \<noteq> [] \<and> \<not> truthy rows"
  then show "fst (format_table st tw rows (Some cols) (Some hs) pad al wr) r
             = rev (map snd (filter (\<lambda>(c, h). c = r) (zip cols hs))) @ st r"
    by (simp add: format_table_store prepare_columns_store_columns)
next
  assume a: "cols \<noteq> [] \<and> hs \<noteq> [] \<and> \<not> truthy rows \<and> distinct cols \<and> k < length cols \<and> k < length hs"
  then have f: "filter (\<lambda>(c, h). c = cols ! k) (zip cols hs) = [(cols ! k, hs ! k)]"
    by (simp add: zip_distinct_filter)
  from a show "fst (format_table st tw rows (Some cols) (Some hs) pad al wr) (cols ! k) = hs ! k # st (cols ! k)"
    by (simp add: format_table_store prepare_columns_store_columns f)
  from a show "fst (format_table (fst (format_table st tw rows (Some cols) (Some hs) pad al wr))
                  tw' rows (Some cols) (Some hs) pad' al' wr') (cols ! k)
            = hs ! k # hs ! k # st (cols ! k)"
    by (simp add: format_table_store prepare_columns_store_columns f)
next
  assume "\<not> truthy columns"
  then show "fst (format_table st tw rows columns headers pad al wr) = st"
    by (simp add: format_table_store prepare_columns_store_rows)
qed

theorem headers_mutate_columns_witness:
  "fst (format_table ((\<lambda>_. [])(0 := [''alice'', ''bob''], 1 := [''30'', ''7''])) 80 None (Some [0, 1])
          (Some [''NAME'', ''AGE'']) 2 None True) 0 = [''NAME'', ''alice'', ''bob'']
   \<and> fst (format_table
            (fst (format_table ((\<lambda>_. [])(0 := [''alice'', ''bob''], 1 := [''30'', ''7''])) 80 None (Some [0, 1])
                   (Some [''NAME'', ''AGE'']) 2 None True))
            80 None (Some [0, 1]) (Some [''NAME'', ''AGE'']) 2 None True) 0
       = [''NAME'', ''NAME'', ''alice'', ''bob'']
   \<and> fst (format_table ((\<lambda>_. [])(0 := [''alice'', ''bob''], 1 := [''30'', ''7''])) 80 (Some [0, 1]) None
          (Some [''NAME'', ''AGE'']) 2 None True)
       = (\<lambda>_. [])(0 := [''alice'', ''bob''], 1 := [''30'', ''7''])"
proof -
  let ?st = "(\<lambda>_. [])(0 := [''alice'', ''bob''], 1 := [''30'', ''7'']) :: store"
  have h: "[0, 1] \<noteq> ([] :: ref list) \<and> [''NAME'', ''AGE''] \<noteq> [] \<and> \<not> truthy (None :: ref list option)
      \<and> distinct [0, 1 :: ref] \<and> 0 < length [0, 1 :: ref] \<and> 0 < length [''NAME'', ''AGE'']"
    by (simp add: truthy_def)
  have n: "\<not> truthy (None :: ref list option)"
    by (simp add: truthy_def)
  from headers_mutate_columns [where cols = "[0, 1]" and hs = "[''NAME'', ''AGE'']" and rows = None
      and k = 0 and st = ?st and tw = 80 and pad = 2 and al = None and wr = True
      and tw' = 80 and pad' = 2 and al' = None and wr' = True and columns = None] h
  have a: "fst (format_table ?st 80 None (Some [0, 1]) (Some [''NAME'', ''AGE'']) 2 None True) 0
             = [''NAME'', ''alice'', ''bob'']"
    and b: "fst (format_table (fst (format_table ?st 80 None (Some [0, 1]) (Some [''NAME'', ''AGE'']) 2 None True))
            80 None (Some [0, 1]) (Some [''NAME'', ''AGE'']) 2 None True) 0
          = [''NAME'', ''NAME'', ''alice'', ''bob'']"
    by simp_all
  from headers_mutate_columns [where columns = None and st = ?st and tw = 80 and rows = "Some [0, 1]"
      and headers = "Some [''NAME'', ''AGE'']" and pad = 2 and al = None and wr = True] n
  have c: "fst (format_table ?st 80 (Some [0, 1]) None (Some [''NAME'', ''AGE'']) 2 None True) = ?st"
    by simp
  show ?thesis
    by (intro conjI a b c)
qed

section \<open>The exceptions of \<open>format_table\<close>\<close>

lemma msgs_distinct:
  "distinct [both_given_msg, neither_given_msg, alignment_count_msg, alignment_tag_msg,
     max_empty_msg, invalid_width_msg]"
  by (simp add: both_given_msg_def neither_given_msg_def alignment_count_msg_def
        alignment_tag_msg_def max_empty_msg_def invalid_width_msg_def)

lemmas msgs_neq = msgs_distinct [simplified]

lemma prepare_columns_errors:
  "snd (prepare_columns st rows columns headers) = Inl e \<Longrightarrow>
     (e = ValueError both_given_msg \<and> truthy rows \<and> truthy columns)
     \<or> (e = ValueError neither_given_msg \<and> \<not> truthy rows \<and> \<not> truthy columns)
     \<or> e = IndexError"
proof -
  have f: "insert_headers_fresh hs i cols = Inl e' \<Longrightarrow> e' = IndexError" for hs i cols e'
    by (induction cols arbitrary: i) (auto split: if_splits sum.splits)
  have s: "insert_headers_store hs i rs st' = (st'', Some e') \<Longrightarrow> e' = IndexError" for hs i rs st' st'' e'
    using insert_headers_store_snd [of hs i rs st'] by (simp split: if_splits)
  assume "snd (prepare_columns st rows columns headers) = Inl e"
  then show ?thesis
    unfolding prepare_columns_def Let_def
    by (auto split: if_splits prod.splits option.splits dest: f s)
qed

lemma prepare_columns_both:
  "truthy rows \<Longrightarrow> truthy columns \<Longrightarrow>
     prepare_columns st rows columns headers = (st, Inl (ValueError both_given_msg))"
  by (simp add: prepare_columns_def)

lemma prepare_columns_neither:
  "\<not> truthy rows \<Longrightarrow> \<not> truthy columns \<Longrightarrow>
     prepare_columns st rows columns headers = (st, Inl (ValueError neither_given_msg))"
  by (simp add: prepare_columns_def)

lemma final_widths_errors:
  "final_widths tw pad wr cols = Inl e \<Longrightarrow>
     e = ValueError max_empty_msg \<or> e = ZeroDivisionError \<or> e = OverflowError"
proof -
  assume a: "final_widths tw pad wr cols = Inl e"
  show ?thesis
  proof (cases "natural_widths cols")
    case (Inl e')
    from map_err_Inl [OF Inl [unfolded natural_widths_def]]
    obtain col :: "string list" where "py_max (map (\<lambda>cell. int (length cell)) col) = Inl e'"
      by auto
    then have "e' = ValueError max_empty_msg"
      by (cases col) auto
    with a Inl show ?thesis by (simp add: final_widths_def)
  next
    case (Inr ws)
    show ?thesis
    proof (cases wr)
      case True
      with a Inr have "shrink_widths tw pad ws = Inl e"
        by (simp add: final_widths_def)
      from map_err_Inl [OF this [unfolded shrink_widths_def Let_def]]
      obtain su cu w where "shrink_width su cu (w :: int) = Inl e"
        by auto
      then show ?thesis
        by (auto simp: shrink_width_def round_double_def Let_def split: if_splits sum.splits)
    next
      case False
      with a Inr show ?thesis
        by (simp add: final_widths_def)
    qed
  qed
qed

lemma textwrap_wrap_errors:
  "textwrap_wrap cell width = Inl e \<Longrightarrow> e = ValueError invalid_width_msg \<and> width \<le> 0"
  by (auto simp: textwrap_wrap_def Let_def split: if_splits)

lemma wrap_columns_errors:
  assumes "wrap_columns cols ws = Inl e"
  shows "e = ValueError invalid_width_msg"
proof -
  from map_err_Inl [OF assms [unfolded wrap_columns_def]]
  obtain col w where cw: "map_err (\<lambda>cell. textwrap_wrap cell w) col = Inl e"
    by auto
  from map_err_Inl [OF cw] obtain cell where "textwrap_wrap cell w = Inl e"
    by auto
  then show ?thesis
    by (simp add: textwrap_wrap_errors)
qed

lemma fill_cells_errors:
  "fill_cells line i pad cells = Inl e \<Longrightarrow>
     e = ValueError alignment_tag_msg
     \<and> (\<exists>a \<in> set (map (\<lambda>(c, w, a). a) cells). bad_tag a)"
  by (induction line i pad cells rule: fill_cells.induct) (auto simp: bad_tag_def split: if_splits)

lemma row_lines_errors:
  assumes "row_lines ws als pad row = Inl e"
  shows "e = ValueError max_empty_msg
     \<or> (e = ValueError alignment_tag_msg \<and> (\<exists>a \<in> set als. bad_tag a))"
proof (cases "py_max (map (\<lambda>cell. int (length cell)) row)")
  case (Inl e')
  then have "e' = ValueError max_empty_msg"
    by (cases row) auto
  with assms Inl show ?thesis by (simp add: row_lines_def)
next
  case (Inr n)
  define cells where "cells = zip (map (\<lambda>cell. cell @ replicate (nat n - length cell) []) row) (zip ws als)"
  from assms Inr have "map_err (\<lambda>i. fill_cells [] i pad cells) [0 ..< nat n] = Inl e"
    by (simp add: row_lines_def Let_def cells_def)
  from map_err_Inl [OF this] obtain i where c: "fill_cells [] i pad cells = Inl e"
    by auto
  note cells = cells_def
  from fill_cells_errors [OF c] obtain a where
    e: "e = ValueError alignment_tag_msg"
    and a: "a \<in> set (map (\<lambda>(c, w, a). a) cells)" "bad_tag a"
    by blast
  from a(1) have "a \<in> set als"
    unfolding cells by (auto dest!: set_zip_rightD)
  with e a(2) show ?thesis by blast
qed

lemma render_table_errors:
  assumes "render_table cols ws als pad = Inl e"
  shows "e = ValueError invalid_width_msg
     \<or> e = ValueError max_empty_msg
     \<or> (e = ValueError alignment_tag_msg \<and> (\<exists>a \<in> set als. bad_tag a))"
proof (cases "wrap_columns cols ws")
  case (Inl e')
  with assms have "e' = e" by (simp add: render_table_def)
  with Inl wrap_columns_errors show ?thesis by blast
next
  case (Inr wrapped)
  with assms have "map_err (row_lines ws als pad) (transpose_ll wrapped) = Inl e"
    by (simp add: render_table_def split: sum.splits)
  from map_err_Inl [OF this] obtain row where "row_lines ws als pad row = Inl e"
    by auto
  from row_lines_errors [OF this] show ?thesis by blast
qed

lemma resolve_alignment_Inl:
  "resolve_alignment al n = Inl e \<longleftrightarrow>
     e = ValueError alignment_count_msg
     \<and> (\<exists>l. al = Some (AlignList l) \<and> l \<noteq> [] \<and> length l \<noteq> n)"
  by (auto simp: resolve_alignment_def split: option.splits alignment.splits)

lemma resolve_alignment_bad:
  assumes "resolve_alignment al n = Inr als" "a \<in> set als" "bad_tag a"
  shows "al = Some (AlignInt a) \<or> (\<exists>l. al = Some (AlignList l) \<and> a \<in> set l)"
  using assms
  by (auto simp: resolve_alignment_def bad_tag_def split: option.splits alignment.splits if_splits)

lemma format_columns_errors:
  assumes "format_columns tw cols pad al wr = Inl e"
  shows "(e = ValueError alignment_count_msg
          \<and> \<not> list_all (\<lambda>col. length col = 0) cols
          \<and> (\<exists>l. al = Some (AlignList l) \<and> l \<noteq> [] \<and> length l \<noteq> length cols))
     \<or> e = ValueError max_empty_msg
     \<or> e = ZeroDivisionError
     \<or> e = OverflowError
     \<or> e = ValueError invalid_width_msg
     \<or> (e = ValueError alignment_tag_msg
          \<and> (\<exists>a. bad_tag a \<and> (al = Some (AlignInt a) \<or> (\<exists>l. al = Some (AlignList l) \<and> a \<in> set l))))"
proof -
  from assms have ne: "\<not> list_all (\<lambda>col. length col = 0) cols"
    by (auto simp: format_columns_def split: if_splits)
  show ?thesis
  proof (cases "resolve_alignment al (length cols)")
    case (Inl e')
    with assms ne have "e' = e"
      by (simp add: format_columns_def)
    with Inl ne show ?thesis
      by (simp add: resolve_alignment_Inl)
  next
    case als: (Inr als)
    show ?thesis
    proof (cases "final_widths tw pad wr cols")
      case (Inl e')
      with assms ne als have "e' = e"
        by (simp add: format_columns_def)
      with final_widths_errors [OF Inl] show ?thesis by blast
    next
      case (Inr ws)
      with assms ne als have "render_table cols ws als pad = Inl e"
        by (simp add: format_columns_def)
      from render_table_errors [OF this] resolve_alignment_bad [OF als] show ?thesis
        by blast
    qed
  qed
qed

lemma format_columns_count:
  assumes "\<not> list_all (\<lambda>col. length col = 0) cols" "l \<noteq> []" "length l \<noteq> length cols"
  shows "format_columns tw cols pad (Some (AlignList l)) wr
           = Inl (ValueError alignment_count_msg)"
  using assms by (simp add: format_columns_def resolve_alignment_def)

lemma format_table_snd:
  "snd (format_table st tw rows columns headers pad al wr) =
     (case snd (prepare_columns st rows columns headers) of
        Inl e \<Rightarrow> Inl e
      | Inr cols \<Rightarrow> format_columns tw cols pad al wr)"
  by (simp add: format_table_def split: prod.splits sum.splits)

text \<open>
  Claim C3, as the code has it. \<open>format_table\<close> raises its first caller error exactly
  when \<open>rows\<close> and \<open>columns\<close> are both non-empty, its second exactly when neither is
  (absent or empty), the alignment-count error exactly when the columns were obtained
  without error, some column has a cell and \<open>alignment\<close> is a non-empty sequence whose
  length differs from the column count, and the alignment-tag error only when a tag other
  than 0, 1, 2 was given. (Other exceptions exist, and an empty alignment sequence or a
  tag that no printed line reaches is accepted.)
\<close>

theorem caller_errors:
  "(snd (format_table st tw rows columns headers pad al wr)
      = Inl (ValueError both_given_msg)
    \<longleftrightarrow> truthy rows \<and> truthy columns)
   \<and> (snd (format_table st tw rows columns headers pad al wr)
      = Inl (ValueError neither_given_msg)
    \<longleftrightarrow> \<not> truthy rows \<and> \<not> truthy columns)
   \<and> (snd (format_table st tw rows columns headers pad al wr)
      = Inl (ValueError alignment_count_msg)
    \<longleftrightarrow> (\<exists>cols l. snd (prepare_columns st rows columns headers) = Inr cols
          \<and> \<not> list_all (\<lambda>col. length col = 0) cols
          \<and> al = Some (AlignList l) \<and> l \<noteq> [] \<and> length l \<noteq> length cols))
   \<and> (snd (format_table st tw rows columns headers pad al wr)
      = Inl (ValueError alignment_tag_msg)
    \<longrightarrow> (\<exists>a. bad_tag a \<and> (al = Some (AlignInt a) \<or> (\<exists>l. al = Some (AlignList l) \<and> a \<in> set l))))"
proof (cases "snd (prepare_columns st rows columns headers)")
  case (Inl e)
  then have r: "snd (format_table st tw rows columns headers pad al wr) = Inl e"
    by (simp add: format_table_snd)
  from prepare_columns_errors [OF Inl] show ?thesis
    unfolding r using msgs_neq Inl prepare_columns_both [of rows columns st headers]
      prepare_columns_neither [of rows columns st headers]
    by auto
next
  case (Inr cols)
  then have r: "snd (format_table st tw rows columns headers pad al wr) = format_columns tw cols pad al wr"
    by (simp add: format_table_snd)
  have t1: "\<not> (truthy rows \<and> truthy columns)"
  proof
    assume "truthy rows \<and> truthy columns"
    then have "snd (prepare_columns st rows columns headers) = Inl (ValueError both_given_msg)"
      by (simp add: prepare_columns_both)
    with Inr show False by simp
  qed
  have t2: "truthy rows \<or> truthy columns"
  proof (rule ccontr)
    assume "\<not> (truthy rows \<or> truthy columns)"
    then have "snd (prepare_columns st rows columns headers) = Inl (ValueError neither_given_msg)"
      by (simp add: prepare_columns_neither)
    with Inr show False by simp
  qed
  note t = t1 t2
  have c: "format_columns tw cols pad al wr = Inl (ValueError alignment_count_msg)
      \<longleftrightarrow> (\<not> list_all (\<lambda>col. length col = 0) cols
          \<and> (\<exists>l. al = Some (AlignList l) \<and> l \<noteq> [] \<and> length l \<noteq> length cols))"
    using format_columns_errors [of tw cols pad al wr] format_columns_count [of cols _ tw pad wr]
      msgs_neq
    by auto
  show ?thesis
    unfolding r Inr using t c format_columns_errors [of tw cols pad al wr] msgs_neq
    by auto
qed

theorem caller_errors_witness:
  "snd (format_table ((\<lambda>_. [])(0 := [''a''])) 80 (Some [0]) (Some [0]) None 2 None True)
      = Inl (ValueError both_given_msg)
   \<and> snd (format_table ((\<lambda>_. [])(0 := [''a''])) 80 None (Some [0]) None 2 (Some (AlignInt 7)) True)
      = Inl (ValueError alignment_tag_msg)
   \<and> (\<exists>a. bad_tag a \<and> (Some (AlignInt 7) = Some (AlignInt a)
          \<or> (\<exists>l. Some (AlignInt 7) = Some (AlignList l) \<and> a \<in> set l)))"
proof -
  let ?st = "(\<lambda>_. [])(0 := [''a'']) :: store"
  have a: "snd (format_table ?st 80 (Some [0]) (Some [0]) None 2 None True) = Inl (ValueError both_given_msg)"
    using caller_errors [of ?st 80 "Some [0]" "Some [0]" None 2 None True]
    by (simp add: truthy_def)
  have b: "snd (format_table ?st 80 None (Some [0]) None 2 (Some (AlignInt 7)) True)
      = Inl (ValueError alignment_tag_msg)"
    by code_simp
  have c: "\<exists>a. bad_tag a \<and> (Some (AlignInt 7) = Some (AlignInt a)
          \<or> (\<exists>l. Some (AlignInt 7) = Some (AlignList l) \<and> a \<in> set l))"
    using caller_errors [of ?st 80 None "Some [0]" None 2 "Some (AlignInt 7)" True] b
    by blast
  show ?thesis
    by (intro conjI a b c)
qed

text \<open>
  Claim C3 as stated fails in both directions: a column without cells beside one with
  cells raises the \<open>ValueError\<close> of \<open>max()\<close> although none of the four conditions holds;
  the unknown tag 7 on a table whose only cell is a blank returns the empty text; an
  explicit alignment sequence of length 0 for one column is taken for the default.
\<close>

theorem caller_errors_counterexample:
  "snd (format_table ((\<lambda>_. [])(0 := [''a''], 1 := [])) 80 None (Some [0, 1]) None 2 None True)
      = Inl (ValueError max_empty_msg)
   \<and> snd (format_table ((\<lambda>_. [])(0 := ['' ''])) 80 None (Some [0]) None 2 (Some (AlignInt 7)) False)
      = Inr []
   \<and> snd (format_table ((\<lambda>_. [])(0 := [''a''])) 80 None (Some [0]) None 2 (Some (AlignList [])) True)
      = Inr ''a  ''"
  by code_simp

section \<open>Wrapped lines fit the width\<close>

lemma rfind_less: "rfind ch s e < int e"
proof -
  have "\<forall>i \<in> set (filter (\<lambda>i. s ! i = ch) (rev [0 ..< min e (length s)])). i < e"
    by auto
  then show ?thesis
    unfolding rfind_def by (cases "filter (\<lambda>i. s ! i = ch) (rev [0 ..< min e (length s)])") auto
qed

lemma handle_long_word_line:
  assumes "0 < width" "cur_len \<le> width"
  shows "\<exists>e \<le> width - cur_len.
     handle_long_word chunks cur_line cur_len width
       = (cur_line @ [take e (hd chunks)], drop e (hd chunks) # tl chunks)"
proof -
  have "nat (rfind (CHR ''-'') (hd chunks) (width - cur_len)) + 1 \<le> width - cur_len"
    if "0 < rfind (CHR ''-'') (hd chunks) (width - cur_len)"
    using that rfind_less [of "CHR ''-''" "hd chunks" "width - cur_len"] by linarith
  then show ?thesis
    using assms unfolding handle_long_word_def Let_def
    by (auto split: if_splits)
qed

lemma length_concat_sum: "length (concat xs) = sum_list (map length xs)"
  by (induction xs) simp_all

lemma length_concat_butlast: "length (concat (butlast xs)) \<le> length (concat xs)"
  by (induction xs) simp_all

lemma wrap_step_unfold:
  assumes "fill_line width [] 0 (if blank (hd chunks) \<and> started then tl chunks else chunks)
             = (cur_line, cur_len, chunks2)"
    and "p = (if chunks2 \<noteq> [] \<and> length (hd chunks2) > width
              then handle_long_word chunks2 cur_line cur_len width else (cur_line, chunks2))"
    and "cur_line3 = (if fst p \<noteq> [] \<and> blank (last (fst p)) then butlast (fst p) else fst p)"
  shows "wrap_step width started chunks
           = (if cur_line3 \<noteq> [] then Some (concat cur_line3) else None, snd p)"
  unfolding wrap_step_def Let_def assms(1) assms(3) assms(2)
  by (simp add: case_prod_beta)

lemma wrap_step_line_length:
  assumes "wrap_step width started chunks = (Some line, rest)" "0 < width"
  shows "length line \<le> width"
proof -
  define chunks1 where "chunks1 = (if blank (hd chunks) \<and> started then tl chunks else chunks)"
  obtain cur_line cur_len chunks2 where fl: "fill_line width [] 0 chunks1 = (cur_line, cur_len, chunks2)"
    by (cases "fill_line width [] 0 chunks1") auto
  from fill_line_split [OF fl] have cl: "cur_len = sum_list (map length cur_line)"
    by auto
  from fill_line_bound [OF fl] have bound: "cur_len \<le> width"
    by auto
  define p where "p = (if chunks2 \<noteq> [] \<and> length (hd chunks2) > width
          then handle_long_word chunks2 cur_line cur_len width else (cur_line, chunks2))"
  define cur_line3 where "cur_line3 = (if fst p \<noteq> [] \<and> blank (last (fst p)) then butlast (fst p) else fst p)"
  have l2: "length (concat (fst p)) \<le> width"
  proof (cases "chunks2 \<noteq> [] \<and> length (hd chunks2) > width")
    case True
    from handle_long_word_line [OF assms(2) bound, of chunks2 cur_line] obtain e where
      "e \<le> width - cur_len" "fst p = cur_line @ [take e (hd chunks2)]"
      using True by (auto simp: p_def)
    then show ?thesis
      using bound by (simp add: length_concat_sum cl [symmetric])
  next
    case False
    then have "fst p = cur_line"
      by (auto simp: p_def)
    then show ?thesis
      using bound by (simp add: length_concat_sum cl [symmetric])
  qed
  have "length (concat cur_line3) \<le> width"
    using l2 length_concat_butlast [of "fst p"] by (simp add: cur_line3_def)
  moreover have "line = concat cur_line3"
    using assms(1) wrap_step_unfold [OF fl [unfolded chunks1_def] p_def cur_line3_def]
    by (simp split: if_splits)
  ultimately show ?thesis by simp
qed

lemma wrap_loop_line_lengths:
  "0 < width \<Longrightarrow> \<forall>line \<in> set (wrap_loop width started chunks). length line \<le> width"
proof (induction width started chunks rule: wrap_loop.induct)
  case (1 width started chunks)
  show ?case
  proof (cases "chunks = []")
    case True
    then show ?thesis by (simp add: wrap_loop.simps)
  next
    case False
    obtain lo rest where st: "wrap_step width started chunks = (lo, rest)"
      by (cases "wrap_step width started chunks") auto
    show ?thesis
    proof (cases lo)
      case None
      with 1 False st show ?thesis
        by (subst wrap_loop.simps) simp
    next
      case (Some line)
      with wrap_step_line_length [of width started chunks line rest] st 1(3)
      have "length line \<le> width" by simp
      with 1 False st Some show ?thesis
        by (subst wrap_loop.simps) simp
    qed
  qed
qed

lemma textwrap_wrap_line_lengths:
  assumes "textwrap_wrap text width = Inr lines"
  shows "\<forall>line \<in> set lines. int (length line) \<le> width"
proof -
  from assms have w: "0 < width" and l: "lines = wrap_loop (nat width) False (split_chunks text)"
    by (auto simp: textwrap_wrap_def Let_def split: if_splits)
  from wrap_loop_line_lengths [of "nat width" False "split_chunks text"] w l show ?thesis
    by auto
qed

section \<open>Wrapping keeps the words\<close>

lemma split_acc_space:
  "isspace c \<Longrightarrow> split_acc w (xs @ c # ys) = split_acc w xs @ split_acc [] ys"
  by (induction xs arbitrary: w) simp_all

lemma str_split_space: "isspace c \<Longrightarrow> str_split (xs @ c # ys) = str_split xs @ str_split ys"
  by (simp add: str_split_def split_acc_space)

lemma str_split_blank_append: "blank b \<Longrightarrow> str_split (b @ ys) = str_split ys"
  by (induction b) (simp_all add: blank_def str_split_def)

lemma str_split_blank: "blank b \<Longrightarrow> str_split b = []"
  using str_split_blank_append [of b "[]"] by (simp add: str_split_def)

lemma str_split_append_blank:
  assumes "blank b" "b \<noteq> []"
  shows "str_split (xs @ b @ ys) = str_split xs @ str_split ys"
proof -
  obtain c b' where b: "b = c # b'" using assms(2) by (cases b) auto
  with assms(1) have "isspace c" "blank b'" by (simp_all add: blank_def)
  then show ?thesis
    by (simp add: b str_split_space str_split_blank_append)
qed

lemma str_split_join: "str_split (join '' '' ls) = concat (map str_split ls)"
proof (induction "'' ''" ls rule: join.induct)
  case 1
  then show ?case by (simp add: str_split_def)
next
  case (2 x)
  then show ?case by simp
next
  case (3 x y ys)
  have "isspace (CHR '' '')" by (simp add: isspace_def)
  then show ?case
    using 3 by (simp add: str_split_space)
qed

lemma alternating_suffix: "alternating (xs @ ys) \<Longrightarrow> alternating ys"
  by (induction xs rule: alternating.induct) (auto elim: alternating.elims)

lemma alternating_tl: "alternating cs \<Longrightarrow> alternating (tl cs)"
  by (cases cs rule: alternating.cases) simp_all

lemma alternating_boundary:
  "alternating (xs @ ys) \<Longrightarrow> xs \<noteq> [] \<Longrightarrow> ys \<noteq> [] \<Longrightarrow> blank (last xs) \<or> blank (hd ys)"
proof (induction xs rule: alternating.induct)
  case 1
  then show ?case by simp
next
  case (2 c)
  then show ?case by (cases ys) auto
next
  case (3 c d cs)
  then show ?case by simp
qed

lemma alternating_blank_hd: "alternating (b # cs) \<Longrightarrow> blank b' \<Longrightarrow> alternating (b' # cs)"
  by (cases cs) simp_all

lemma blank_drop: "blank b \<Longrightarrow> blank (drop n b)"
  by (auto simp: blank_def list_all_iff dest: in_set_dropD)

lemma blank_take: "blank b \<Longrightarrow> blank (take n b)"
  by (auto simp: blank_def list_all_iff dest: in_set_takeD)

lemma wrappable_suffix: "wrappable width (xs @ ys) \<Longrightarrow> wrappable width ys"
  by (auto simp: wrappable_def dest: alternating_suffix)

lemma wrappable_tl: "wrappable width cs \<Longrightarrow> wrappable width (tl cs)"
  by (cases cs) (auto simp: wrappable_def dest: alternating_tl)

lemma wrap_step_roundtrip:
  assumes ne: "chunks \<noteq> []" and ok: "wrappable width chunks" and w: "0 < width"
    and st: "wrap_step width started chunks = (lo, rest)"
  shows "wrappable width rest
     \<and> str_split (concat chunks)
         = (case lo of None \<Rightarrow> [] | Some line \<Rightarrow> str_split line) @ str_split (concat rest)"
proof -
  define chunks1 where "chunks1 = (if blank (hd chunks) \<and> started then tl chunks else chunks)"
  have ok1: "wrappable width chunks1"
    using ok by (simp add: chunks1_def wrappable_tl)
  have c1: "str_split (concat chunks) = str_split (concat chunks1)"
  proof (cases "blank (hd chunks) \<and> started")
    case True
    then have "concat chunks = hd chunks @ concat chunks1"
      using ne by (cases chunks) (simp_all add: chunks1_def)
    with True show ?thesis
      by (simp add: str_split_blank_append)
  next
    case False
    then have "chunks1 = chunks" by (auto simp: chunks1_def)
    then show ?thesis by simp
  qed
  obtain cur_line cur_len chunks2 where fl: "fill_line width [] 0 chunks1 = (cur_line, cur_len, chunks2)"
    by (cases "fill_line width [] 0 chunks1") auto
  from fill_line_split [OF fl] have sp: "chunks1 = cur_line @ chunks2"
    and cl: "cur_len = sum_list (map length cur_line)"
    by auto
  from fill_line_bound [OF fl] have bound: "cur_len \<le> width"
    by auto
  have ok2: "wrappable width chunks2"
    using ok1 sp wrappable_suffix by metis
  define p where "p = (if chunks2 \<noteq> [] \<and> length (hd chunks2) > width
          then handle_long_word chunks2 cur_line cur_len width else (cur_line, chunks2))"
  define cur_line3 where "cur_line3 = (if fst p \<noteq> [] \<and> blank (last (fst p)) then butlast (fst p) else fst p)"
  from wrap_step_unfold [OF fl [unfolded chunks1_def] p_def cur_line3_def] st
  have lo: "lo = (if cur_line3 \<noteq> [] then Some (concat cur_line3) else None)" and rest: "rest = snd p"
    by simp_all
  have lo': "(case lo of None \<Rightarrow> [] | Some line \<Rightarrow> str_split line) = str_split (concat cur_line3)"
    by (simp add: lo str_split_def)
  show ?thesis
  proof (cases "chunks2 \<noteq> [] \<and> length (hd chunks2) > width")
    case True
    then obtain b cs where c2: "chunks2 = b # cs" and lb: "width < length b"
      by (cases chunks2) auto
    with ok2 have bb: "blank b" "b \<noteq> []"
      by (auto simp: wrappable_def)
    from handle_long_word_line [OF w bound, of chunks2 cur_line] obtain e where
      e: "e \<le> width - cur_len" and hp: "p = (cur_line @ [take e b], drop e b # cs)"
      using True by (auto simp: p_def c2)
    have cl3: "cur_line3 = cur_line"
      using bb by (simp add: cur_line3_def hp blank_take)
    have r: "rest = drop e b # cs"
      by (simp add: rest hp)
    have "e < length b"
      using e lb by simp
    then have dne: "drop e b \<noteq> []"
      by simp
    have "alternating (drop e b # cs)"
      using ok2 bb alternating_blank_hd [of b cs "drop e b"]
      by (simp add: c2 wrappable_def blank_drop)
    then have okr: "wrappable width rest"
      using ok2 bb dne unfolding r c2 wrappable_def
      by (simp add: blank_drop)
    have "str_split (concat chunks1) = str_split (concat cur_line @ b @ concat cs)"
      by (simp add: sp c2)
    also have "\<dots> = str_split (concat cur_line) @ str_split (concat cs)"
      using bb by (rule str_split_append_blank)
    also have "str_split (concat cs) = str_split (concat rest)"
      using bb by (simp add: r str_split_blank_append blank_drop)
    finally show ?thesis
      using okr by (simp add: c1 lo' cl3)
  next
    case False
    then have hp: "p = (cur_line, chunks2)"
      unfolding p_def by (simp only: if_False)
    have r: "rest = chunks2"
      by (simp add: rest hp)
    show ?thesis
    proof (cases "cur_line \<noteq> [] \<and> blank (last cur_line)")
      case True
      then have cl3: "cur_line3 = butlast cur_line"
        by (simp add: cur_line3_def hp)
      from True have "last cur_line \<in> set chunks1"
        by (simp add: sp)
      with ok1 have lne: "last cur_line \<noteq> []"
        by (auto simp: wrappable_def list_all_iff)
      have "concat cur_line = concat (butlast cur_line) @ last cur_line"
        using True by (metis append_butlast_last_id concat_append concat.simps(2) concat.simps(1) append_Nil2)
      then have "str_split (concat chunks1)
          = str_split (concat (butlast cur_line) @ last cur_line @ concat chunks2)"
        by (simp add: sp)
      also have "\<dots> = str_split (concat (butlast cur_line)) @ str_split (concat chunks2)"
        using True lne by (intro str_split_append_blank) simp_all
      finally show ?thesis
        using ok2 by (simp add: c1 lo' cl3 r)
    next
      case nb: False
      then have cl3: "cur_line3 = cur_line"
        by (auto simp: cur_line3_def hp)
      have "str_split (concat cur_line @ concat chunks2)
          = str_split (concat cur_line) @ str_split (concat chunks2)"
      proof (cases "cur_line = [] \<or> chunks2 = []")
        case True
        then show ?thesis by (auto simp: str_split_def)
      next
        case False
        then obtain b cs where c2: "chunks2 = b # cs"
          by (cases chunks2) auto
        from ok1 False nb have "blank b"
          using alternating_boundary [of cur_line chunks2]
          by (auto simp: wrappable_def sp c2)
        moreover from ok2 have "b \<noteq> []"
          by (simp add: wrappable_def c2)
        ultimately have "str_split (concat cur_line @ b @ concat cs)
            = str_split (concat cur_line) @ str_split (concat cs)"
          and "str_split (b @ concat cs) = str_split (concat cs)"
          by (simp_all add: str_split_append_blank str_split_blank_append)
        then show ?thesis
          by (simp add: c2)
      qed
      then show ?thesis
        using ok2 by (simp add: c1 lo' cl3 r sp)
    qed
  qed
qed

lemma wrap_loop_roundtrip:
  "wrappable width chunks \<Longrightarrow> 0 < width \<Longrightarrow>
     concat (map str_split (wrap_loop width started chunks)) = str_split (concat chunks)"
proof (induction width started chunks rule: wrap_loop.induct)
  case (1 width started chunks)
  show ?case
  proof (cases "chunks = []")
    case True
    then show ?thesis by (simp add: wrap_loop.simps str_split_def)
  next
    case False
    obtain lo rest where st: "wrap_step width started chunks = (lo, rest)"
      by (cases "wrap_step width started chunks") auto
    from wrap_step_roundtrip [OF False "1.prems" st]
    have okr: "wrappable width rest"
      and eq: "str_split (concat chunks)
         = (case lo of None \<Rightarrow> [] | Some line \<Rightarrow> str_split line) @ str_split (concat rest)"
      by simp_all
    show ?thesis
    proof (cases lo)
      case None
      with "1.IH"(1) [OF False st [symmetric, unfolded None] refl okr "1.prems"(2)] False st eq
      show ?thesis
        by (subst wrap_loop.simps) simp
    next
      case (Some line)
      with "1.IH"(2) [OF False st [symmetric, unfolded Some] refl okr "1.prems"(2)] False st eq
      show ?thesis
        by (subst wrap_loop.simps) simp
    qed
  qed
qed

section \<open>The chunks of a text without hyphens\<close>

lemma is_ws_isspace: "is_ws c \<Longrightarrow> isspace c"
  by (auto simp: is_ws_def isspace_def)

lemma isspace_space: "isspace (CHR '' '')"
  by (simp add: isspace_def)

lemma not_is_ws_hyphen: "\<not> is_ws (CHR ''-'')"
  by (simp add: is_ws_def)

lemma concat_split_from: "concat (split_from bef s) = s"
  by (induction bef s rule: split_from.induct) (simp_all add: Let_def)

lemma split_from_nonempty: "\<forall>c \<in> set (split_from bef s). c \<noteq> []"
  by (induction bef s rule: split_from.induct) (simp_all add: Let_def)

lemma word_end_plain:
  "CHR ''-'' \<notin> set cs \<Longrightarrow> word_end bef cs = length (takeWhile (\<lambda>x. \<not> is_ws x) cs)"
  by (induction cs arbitrary: bef) (auto simp: is_hyphen_def em_dash_at_def)

lemma em_dash_at_plain: "c \<noteq> CHR ''-'' \<Longrightarrow> \<not> em_dash_at bef (c # cs)"
  by (simp add: em_dash_at_def is_hyphen_def)

lemma split_from_plain:
  assumes "CHR ''-'' \<notin> set (c # cs)"
  shows "split_from bef (c # cs) =
     (if is_ws c
      then (c # takeWhile is_ws cs) # split_from (rev (takeWhile is_ws cs) @ c # bef) (dropWhile is_ws cs)
      else (c # takeWhile (\<lambda>x. \<not> is_ws x) cs)
             # split_from (rev (takeWhile (\<lambda>x. \<not> is_ws x) cs) @ c # bef) (dropWhile (\<lambda>x. \<not> is_ws x) cs))"
proof -
  from assms have c: "c \<noteq> CHR ''-''" and cs: "CHR ''-'' \<notin> set cs"
    by auto
  show ?thesis
    by (simp add: Let_def em_dash_at_plain [OF c] word_end_plain [OF cs]
          takeWhile_eq_take [symmetric] dropWhile_eq_drop [symmetric])
qed

lemma blank_ws_run: "is_ws c \<Longrightarrow> blank (c # takeWhile is_ws cs)"
  by (auto simp: blank_def list_all_iff is_ws_isspace dest: set_takeWhileD)

lemma split_from_alternating:
  "CHR ''-'' \<notin> set s \<Longrightarrow>
     alternating (split_from bef s) \<and> (s \<noteq> [] \<and> is_ws (hd s) \<longrightarrow> blank (hd (split_from bef s)))"
proof (induction s arbitrary: bef rule: length_induct)
  case (1 s)
  show ?case
  proof (cases s)
    case Nil
    then show ?thesis by simp
  next
    case s: (Cons c cs)
    with "1.prems" have nh: "CHR ''-'' \<notin> set (c # cs)"
      by simp
    show ?thesis
    proof (cases "is_ws c")
      case True
      let ?rest = "dropWhile is_ws cs"
      let ?bef = "rev (takeWhile is_ws cs) @ c # bef"
      have sf: "split_from bef s = (c # takeWhile is_ws cs) # split_from ?bef ?rest"
        using split_from_plain [OF nh, of bef] True by (simp add: s)
      have "length ?rest < length s"
        by (simp add: s length_dropWhile_le less_Suc_eq_le)
      moreover have "CHR ''-'' \<notin> set ?rest"
        using nh by (auto dest: set_dropWhileD)
      ultimately have ih: "alternating (split_from ?bef ?rest)"
        using "1.IH" by blast
      have b: "blank (c # takeWhile is_ws cs)"
        using True by (rule blank_ws_run)
      have "alternating ((c # takeWhile is_ws cs) # split_from ?bef ?rest)"
        using ih b by (cases "split_from ?bef ?rest") simp_all
      with b show ?thesis
        unfolding sf by simp
    next
      case False
      let ?rest = "dropWhile (\<lambda>x. \<not> is_ws x) cs"
      let ?bef = "rev (takeWhile (\<lambda>x. \<not> is_ws x) cs) @ c # bef"
      have sf: "split_from bef s = (c # takeWhile (\<lambda>x. \<not> is_ws x) cs) # split_from ?bef ?rest"
        using split_from_plain [OF nh, of bef] False by (simp add: s)
      have "length ?rest < length s"
        by (simp add: s length_dropWhile_le less_Suc_eq_le)
      moreover have "CHR ''-'' \<notin> set ?rest"
        using nh by (auto dest: set_dropWhileD)
      ultimately have ih: "alternating (split_from ?bef ?rest)"
        and ih2: "?rest \<noteq> [] \<and> is_ws (hd ?rest) \<longrightarrow> blank (hd (split_from ?bef ?rest))"
        using "1.IH" by blast+
      have "alternating ((c # takeWhile (\<lambda>x. \<not> is_ws x) cs) # split_from ?bef ?rest)"
      proof (cases "split_from ?bef ?rest")
        case Nil
        then show ?thesis by simp
      next
        case (Cons d ds)
        have "?rest \<noteq> []"
        proof
          assume "?rest = []"
          then have "split_from ?bef ?rest = []"
            by (simp only: split_from.simps)
          with Cons show False by simp
        qed
        then have "is_ws (hd ?rest)"
          using hd_dropWhile [of "\<lambda>x. \<not> is_ws x" cs] by simp
        with ih2 \<open>?rest \<noteq> []\<close> have "blank d"
          by (simp add: Cons)
        with ih show ?thesis
          by (simp add: Cons)
      qed
      with False show ?thesis
        unfolding sf by (simp add: s)
    qed
  qed
qed

lemma split_acc_spaces:
  "0 < n \<Longrightarrow> isspace c \<Longrightarrow> split_acc w (replicate n c @ ys) = split_acc w [c] @ split_acc [] ys"
proof (induction n arbitrary: w)
  case 0
  then show ?case by simp
next
  case (Suc n)
  show ?case
  proof (cases n)
    case 0
    with Suc.prems show ?thesis by simp
  next
    case (Suc m)
    with Suc.IH [of "[]"] Suc.prems show ?thesis
      by simp
  qed
qed

lemma split_acc_munge:
  "split_acc w (map (\<lambda>c. if is_ws c then CHR '' '' else c) (expandtabs_from j s)) = split_acc w s"
proof (induction s arbitrary: j w)
  case Nil
  then show ?case by simp
next
  case (Cons c s)
  have tab: "isspace (CHR 0x09)" "is_ws (CHR 0x09)" "isspace (CHR 0x0A)" "isspace (CHR 0x0D)"
    "is_ws (CHR 0x0A)" "is_ws (CHR 0x0D)"
    by (simp_all add: isspace_def is_ws_def)
  show ?case
  proof (cases "c = CHR 0x09")
    case True
    have "0 < 8 - j mod 8" by simp
    from split_acc_spaces [OF this isspace_space]
    show ?thesis
      using True tab Cons.IH by (simp add: isspace_space)
  next
    case False
    then show ?thesis
      using tab Cons.IH by (auto simp: isspace_space is_ws_isspace)
  qed
qed

lemma str_split_munge: "str_split (munge_whitespace text) = str_split text"
  by (simp add: str_split_def munge_whitespace_def expandtabs_def split_acc_munge)

lemma set_expandtabs: "set (expandtabs_from j s) \<subseteq> insert (CHR '' '') (set s)"
  by (induction s arbitrary: j) (auto split: if_splits)

lemma munge_no_hyphen: "CHR ''-'' \<notin> set text \<Longrightarrow> CHR ''-'' \<notin> set (munge_whitespace text)"
  using set_expandtabs [of 0 "text"]
  by (auto simp: munge_whitespace_def expandtabs_def split: if_splits)

lemma textwrap_wrap_roundtrip:
  assumes "textwrap_wrap text width = Inr lines"
    and "CHR ''-'' \<notin> set text"
    and "\<forall>c \<in> set (split_chunks text). blank c \<or> int (length c) \<le> width"
  shows "collapse (join '' '' lines) = collapse text"
proof -
  from assms(1) have w: "0 < width" and l: "lines = wrap_loop (nat width) False (split_chunks text)"
    by (auto simp: textwrap_wrap_def Let_def split: if_splits)
  have "wrappable (nat width) (split_chunks text)"
    using assms(3) w split_from_nonempty [of "[]" "munge_whitespace text"]
      split_from_alternating [OF munge_no_hyphen [OF assms(2)], of "[]"]
    unfolding wrappable_def list_all_iff
    by (auto simp: split_chunks_def)
  from wrap_loop_roundtrip [OF this, of False] w
  have "concat (map str_split lines) = str_split (concat (split_chunks text))"
    by (simp add: l)
  then have "str_split (join '' '' lines) = str_split text"
    by (simp add: str_split_join split_chunks_def concat_split_from str_split_munge)
  then show ?thesis
    by (simp add: collapse_def)
qed

lemma split_acc_word:
  "\<forall>c \<in> set run. \<not> isspace c \<Longrightarrow> split_acc w (run @ rest) = split_acc (w @ run) rest"
  by (induction run arbitrary: w) simp_all

lemma str_split_word:
  assumes "run \<noteq> []" "\<forall>c \<in> set run. \<not> isspace c" "rest = [] \<or> isspace (hd rest)"
  shows "str_split (run @ rest) = run # str_split rest"
proof -
  have "str_split (run @ rest) = split_acc run rest"
    using split_acc_word [OF assms(2), of "[]" rest] by (simp add: str_split_def)
  also have "\<dots> = run # str_split rest"
    using assms(1,3) by (cases rest) (simp_all add: str_split_def)
  finally show ?thesis .
qed

lemma split_from_words:
  "CHR ''-'' \<notin> set s \<Longrightarrow> \<forall>c \<in> set s. isspace c \<longrightarrow> is_ws c \<Longrightarrow>
     filter (\<lambda>c. \<not> blank c) (split_from bef s) = str_split s"
proof (induction s arbitrary: bef rule: length_induct)
  case (1 s)
  show ?case
  proof (cases s)
    case Nil
    then show ?thesis by (simp add: str_split_def)
  next
    case s: (Cons c cs)
    with "1.prems" have nh: "CHR ''-'' \<notin> set (c # cs)"
      by simp
    show ?thesis
    proof (cases "is_ws c")
      case True
      let ?run = "c # takeWhile is_ws cs"
      let ?rest = "dropWhile is_ws cs"
      let ?bef = "rev (takeWhile is_ws cs) @ c # bef"
      have sf: "split_from bef s = ?run # split_from ?bef ?rest"
        using split_from_plain [OF nh, of bef] True by (simp add: s)
      have "length ?rest < length s"
        by (simp add: s length_dropWhile_le less_Suc_eq_le)
      moreover have "CHR ''-'' \<notin> set ?rest"
        using nh by (auto dest: set_dropWhileD)
      moreover have "\<forall>c \<in> set ?rest. isspace c \<longrightarrow> is_ws c"
        using "1.prems"(2) by (auto simp: s dest: set_dropWhileD)
      ultimately have ih: "filter (\<lambda>c. \<not> blank c) (split_from ?bef ?rest) = str_split ?rest"
        using "1.IH" by blast
      have b: "blank ?run"
        using True by (rule blank_ws_run)
      have "s = ?run @ ?rest"
        by (simp add: s)
      then have "str_split s = str_split (?run @ ?rest)"
        by simp
      also have "\<dots> = str_split ?rest"
        using b by (rule str_split_blank_append)
      finally show ?thesis
        using b ih by (simp add: sf)
    next
      case False
      let ?run = "c # takeWhile (\<lambda>x. \<not> is_ws x) cs"
      let ?rest = "dropWhile (\<lambda>x. \<not> is_ws x) cs"
      let ?bef = "rev (takeWhile (\<lambda>x. \<not> is_ws x) cs) @ c # bef"
      have sf: "split_from bef s = ?run # split_from ?bef ?rest"
        using split_from_plain [OF nh, of bef] False by (simp add: s)
      have "length ?rest < length s"
        by (simp add: s length_dropWhile_le less_Suc_eq_le)
      moreover have "CHR ''-'' \<notin> set ?rest"
        using nh by (auto dest: set_dropWhileD)
      moreover have "\<forall>c \<in> set ?rest. isspace c \<longrightarrow> is_ws c"
        using "1.prems"(2) by (auto simp: s dest: set_dropWhileD)
      ultimately have ih: "filter (\<lambda>c. \<not> blank c) (split_from ?bef ?rest) = str_split ?rest"
        using "1.IH" by blast
      have run: "\<forall>x \<in> set ?run. \<not> isspace x"
      proof
        fix x assume x: "x \<in> set ?run"
        then have "\<not> is_ws x"
          using False by (auto dest: set_takeWhileD)
        moreover from x have "x \<in> set s"
          by (auto simp: s dest: set_takeWhileD)
        ultimately show "\<not> isspace x"
          using "1.prems"(2) by blast
      qed
      then have nb: "\<not> blank ?run"
        by (simp add: blank_def)
      have rest: "?rest = [] \<or> isspace (hd ?rest)"
        using hd_dropWhile [of "\<lambda>x. \<not> is_ws x" cs] by (auto intro: is_ws_isspace)
      have "s = ?run @ ?rest"
        by (simp add: s)
      then have "str_split s = str_split (?run @ ?rest)"
        by simp
      also have "\<dots> = ?run # str_split ?rest"
        using run rest by (intro str_split_word) simp_all
      finally show ?thesis
        using nb ih by (simp add: sf)
    qed
  qed
qed

lemma munge_whitespace_ws:
  assumes "\<forall>c \<in> set text. isspace c \<longrightarrow> is_ws c"
  shows "\<forall>c \<in> set (munge_whitespace text). isspace c \<longrightarrow> is_ws c"
proof
  fix c assume "c \<in> set (munge_whitespace text)"
  then obtain d where d: "d \<in> set (expandtabs_from 0 text)"
    and c: "c = (if is_ws d then CHR '' '' else d)"
    by (auto simp: munge_whitespace_def expandtabs_def)
  have sp: "is_ws (CHR '' '')"
    by (simp add: is_ws_def)
  from d set_expandtabs [of 0 "text"] have "d = CHR '' '' \<or> d \<in> set text"
    by auto
  with assms c sp show "isspace c \<longrightarrow> is_ws c"
    by auto
qed

lemma textwrap_wrap_words:
  assumes "textwrap_wrap text width = Inr lines"
    and "CHR ''-'' \<notin> set text"
    and "\<forall>c \<in> set text. isspace c \<longrightarrow> is_ws c"
    and "\<forall>w \<in> set (str_split text). int (length w) \<le> width"
  shows "collapse (join '' '' lines) = collapse text"
proof -
  have "filter (\<lambda>c. \<not> blank c) (split_chunks text) = str_split text"
    using split_from_words [OF munge_no_hyphen [OF assms(2)] munge_whitespace_ws [OF assms(3)], of "[]"]
    by (simp add: split_chunks_def str_split_munge)
  then have "set (str_split text) = {c \<in> set (split_chunks text). \<not> blank c}"
    by (metis set_filter)
  with assms(4) have "\<forall>c \<in> set (split_chunks text). blank c \<or> int (length c) \<le> width"
    by blast
  with assms(1,2) show ?thesis
    by (rule textwrap_wrap_roundtrip)
qed

lemma wrap_columns_cell:
  assumes "wrap_columns columns widths = Inr wrapped" "j < length wrapped" "i < length (wrapped ! j)"
  shows "textwrap_wrap (columns ! j ! i) (widths ! j) = Inr (wrapped ! j ! i)"
proof -
  from map_err_length [OF assms(1) [unfolded wrap_columns_def]]
  have len: "length wrapped = length (zip columns widths)" .
  with assms(2) have j: "j < length (zip columns widths)" by simp
  from map_err_nth [OF assms(1) [unfolded wrap_columns_def] j]
  have col: "map_err (\<lambda>cell. textwrap_wrap cell (widths ! j)) (columns ! j) = Inr (wrapped ! j)"
    using j by simp
  from map_err_length [OF col] assms(3) have i: "i < length (columns ! j)" by simp
  from map_err_nth [OF col i] show ?thesis .
qed

text \<open>
  Claim C4, as the code has it. For every cell of a table whose cells were wrapped
  (\<open>wrapped\<close> are the wrapped columns of lines 292 to 295 for the column widths
  \<open>widths\<close>): no wrapped line of the cell is longer than the width of its column; and if
  the cell contains no hyphen, its only white space is what \<open>textwrap\<close> takes for white
  space (tab, line feed, vertical tab, form feed, carriage return and space) and none of
  its words, the items of \<open>cell.split()\<close>, is longer than that width, then joining the
  wrapped lines with single spaces and collapsing white space gives the cell's text with
  its white space collapsed.
\<close>

theorem wrap_correct:
  assumes "wrap_columns columns widths = Inr wrapped" "j < length wrapped" "i < length (wrapped ! j)"
  shows "(\<forall>line \<in> set (wrapped ! j ! i). int (length line) \<le> widths ! j)
     \<and> (CHR ''-'' \<notin> set (columns ! j ! i)
          \<and> (\<forall>c \<in> set (columns ! j ! i). isspace c \<longrightarrow> is_ws c)
          \<and> (\<forall>w \<in> set (str_split (columns ! j ! i)). int (length w) \<le> widths ! j)
        \<longrightarrow> collapse (join '' '' (wrapped ! j ! i)) = collapse (columns ! j ! i))"
  using textwrap_wrap_line_lengths [OF wrap_columns_cell [OF assms]]
    textwrap_wrap_words [OF wrap_columns_cell [OF assms]]
  by blast

theorem wrap_correct_witness:
  "wrap_columns [[''ab cd'']] [2] = Inr [[[''ab'', ''cd'']]]
   \<and> CHR ''-'' \<notin> set ''ab cd''
   \<and> list_all (\<lambda>c. \<not> isspace c \<or> is_ws c) ''ab cd''
   \<and> list_all (\<lambda>w. int (length w) \<le> 2) (str_split ''ab cd'')
   \<and> list_all (\<lambda>line. int (length line) \<le> 2) [''ab'', ''cd'']
   \<and> collapse (join '' '' [''ab'', ''cd'']) = collapse ''ab cd''"
proof -
  have w: "wrap_columns [[''ab cd'']] [2] = Inr [[[''ab'', ''cd'']]]"
    by code_simp
  have j: "0 < length [[[''ab'', ''cd'']]]" and i: "0 < length ([[[''ab'', ''cd'']]] ! 0)"
    by simp_all
  have sp: "str_split ''ab cd'' = [''ab'', ''cd'']"
    by code_simp
  have h1: "CHR ''-'' \<notin> set ''ab cd''"
    by simp
  have h2: "list_all (\<lambda>c. \<not> isspace c \<or> is_ws c) ''ab cd''"
    by code_simp
  have h3: "list_all (\<lambda>w. int (length w) \<le> 2) (str_split ''ab cd'')"
    by (simp add: sp)
  have h: "CHR ''-'' \<notin> set ([[''ab cd'']] ! 0 ! 0)
     \<and> (\<forall>c \<in> set ([[''ab cd'']] ! 0 ! 0). isspace c \<longrightarrow> is_ws c)
     \<and> (\<forall>w \<in> set (str_split ([[''ab cd'']] ! 0 ! 0)). int (length w) \<le> [2] ! 0)"
    using h1 h2 h3 by (auto simp: list_all_iff)
  from wrap_correct [OF w j i] h
  have a: "\<forall>line \<in> set [''ab'', ''cd'']. int (length line) \<le> 2"
    and b: "collapse (join '' '' [''ab'', ''cd'']) = collapse ''ab cd''"
    by simp_all
  from a have a': "list_all (\<lambda>line. int (length line) \<le> 2) [''ab'', ''cd'']"
    by simp
  show ?thesis
    by (intro conjI w h1 h2 h3 a' b)
qed

text \<open>
  Claim C4 as stated fails. The cell \<open>abcdef\<close> in a terminal of width 5 with padding 2
  has the final width 3 and is wrapped to \<open>abc\<close> and \<open>def\<close>, which join to \<open>abc def\<close>.
  And the cell \<open>ab\<close>, no-break space, \<open>cd\<close> in a terminal of width 4 has the final width
  2; \<open>textwrap\<close> takes the no-break space for a letter and breaks the five characters
  into \<open>ab\<close>, no-break space with \<open>c\<close>, and \<open>d\<close>, which join and collapse to \<open>ab c d\<close>,
  while the cell collapses to \<open>ab cd\<close>.
\<close>

theorem long_word_is_broken:
  "final_widths 5 2 True [[''abcdef'']] = Inr [3]
   \<and> wrap_columns [[''abcdef'']] [3] = Inr [[[''abc'', ''def'']]]
   \<and> collapse (join '' '' [''abc'', ''def'']) = ''abc def''
   \<and> collapse ''abcdef'' = ''abcdef''
   \<and> final_widths 4 2 True [[''ab'' @ [CHR 0xA0] @ ''cd'']] = Inr [2]
   \<and> wrap_columns [[''ab'' @ [CHR 0xA0] @ ''cd'']] [2] = Inr [[[''ab'', [CHR 0xA0, CHR ''c''], ''d'']]]
   \<and> collapse (join '' '' [''ab'', [CHR 0xA0, CHR ''c''], ''d'']) = ''ab c d''
   \<and> collapse (''ab'' @ [CHR 0xA0] @ ''cd'') = ''ab cd''"
  by code_simp

section \<open>Stopping, starting and restarting\<close>

lemma stop_feedback_events:
  "stop_daemon_with_cli_feedback e config_name s =
     ([Echo ''Stopping Maestral...'' False,
       StopProcess config_name (fst (stop_maestral_daemon_process (exits_in_time e) s)),
       Echo (case fst (stop_maestral_daemon_process (exits_in_time e) s) of
               Stop_Ok \<Rightarrow> [CHR 0x0D] @ ''Stopping Maestral...        '' @ OK
             | Stop_NotRunning \<Rightarrow> ''Maestral daemon is not running.''
             | Stop_Killed \<Rightarrow> [CHR 0x0D] @ ''Stopping Maestral...        '' @ KILLED) True],
      snd (stop_maestral_daemon_process (exits_in_time e) s))"
  by (simp add: stop_daemon_with_cli_feedback_def case_prod_beta split: Stop.splits)

lemma stop_leaves_not_running:
  "snd (stop_maestral_daemon_process x s) \<noteq> Running"
  by (simp add: stop_maestral_daemon_process_def)

lemma start_not_running:
  assumes "s \<noteq> Running"
  shows "start e foreground verbose config_name s =
     (if launch_ok e then
        (case post_start_setup e foreground verbose config_name of
           None \<Rightarrow> None
         | Some es \<Rightarrow>
             Some ([Echo ''Starting Maestral...'' False,
                    if foreground then StartThread config_name Start_Ok else StartProcess config_name Start_Ok,
                    Echo ([CHR 0x0D] @ ''Starting Maestral...        '' @ OK) True] @ es, Running))
      else Some ([Echo ''Starting Maestral...'' False,
                  if foreground then StartThread config_name Start_Failed
                  else StartProcess config_name Start_Failed,
                  Echo ([CHR 0x0D] @ ''Starting Maestral...        '' @ FAILED) True,
                  Echo ''Please check logs for more information.'' True], NotRunning))"
  using assms by (simp add: start_def start_maestral_daemon_def split: option.splits)

lemma post_start_setup_events:
  assumes "post_start_setup e foreground verbose config_name = Some es"
  shows "\<exists>dialogs. es = GetProxy config_name # dialogs @ [SetLogToStdout verbose, StartSync]
                        @ (if foreground then [JoinThread config_name] else [])"
  using assms unfolding post_start_setup_def
  by (auto split: option.splits if_splits)

text \<open>
  Claim C7. Stopping a daemon that is not running prints the message that it is not
  running and leaves its state as it is; starting a daemon that is running prints
  \<open>Already running.\<close> and returns: no proxy is acquired, there is no link dialog, no
  folder selection and no \<open>start_sync\<close>. Neither raises.
\<close>

theorem lifecycle_idempotent:
  "(s \<noteq> Running \<longrightarrow>
      stop_daemon_with_cli_feedback e config_name s =
        ([Echo ''Stopping Maestral...'' False, StopProcess config_name Stop_NotRunning,
          Echo ''Maestral daemon is not running.'' True], s))
   \<and> start e foreground verbose config_name Running =
        Some ([Echo ''Starting Maestral...'' False,
               if foreground then StartThread config_name Start_AlreadyRunning
               else StartProcess config_name Start_AlreadyRunning,
               Echo ([CHR 0x0D] @ ''Starting Maestral...        Already running.'') True], Running)"
  by (simp add: stop_feedback_events stop_maestral_daemon_process_def start_def
        start_maestral_daemon_def)

theorem lifecycle_idempotent_witness:
  "stop_daemon_with_cli_feedback example_env ''maestral'' Killed =
        ([Echo ''Stopping Maestral...'' False, StopProcess ''maestral'' Stop_NotRunning,
          Echo ''Maestral daemon is not running.'' True], Killed)
   \<and> start example_env False True ''maestral'' Running =
        Some ([Echo ''Starting Maestral...'' False, StartProcess ''maestral'' Start_AlreadyRunning,
               Echo ([CHR 0x0D] @ ''Starting Maestral...        Already running.'') True], Running)"
  using lifecycle_idempotent [of Killed example_env "''maestral''" False True]
  by simp

text \<open>
  Claim C6. \<open>restart\<close> first stops and then, whatever the stop reported, starts with its
  own \<open>foreground\<close>, \<open>verbose\<close> and \<open>config_name\<close>; it fails to return only when a dialog
  of the setup does not end; when the launch succeeds the daemon is \<open>Running\<close> and the
  setup ends with \<open>log_to_stdout = verbose\<close> and \<open>start_sync\<close> (and the wait for the
  thread in the foreground); when the launch fails the daemon is \<open>NotRunning\<close>.
\<close>

theorem restart_composition:
  "(restart e foreground verbose config_name s = None
      \<longleftrightarrow> launch_ok e \<and> post_start_setup e foreground verbose config_name = None)
   \<and> (restart e foreground verbose config_name s = Some (es, s') \<longrightarrow>
        (\<exists>r feedback res rest.
           es = [Echo ''Stopping Maestral...'' False, StopProcess config_name r, Echo feedback True,
                 Echo ''Starting Maestral...'' False,
                 if foreground then StartThread config_name res else StartProcess config_name res]
                @ rest
           \<and> r = fst (stop_maestral_daemon_process (exits_in_time e) s)
           \<and> (launch_ok e \<longrightarrow>
                res = Start_Ok \<and> s' = Running
                \<and> (\<exists>dialogs.
                      rest = [Echo ([CHR 0x0D] @ ''Starting Maestral...        '' @ OK) True,
                              GetProxy config_name] @ dialogs @ [SetLogToStdout verbose, StartSync]
                             @ (if foreground then [JoinThread config_name] else [])))
           \<and> (\<not> launch_ok e \<longrightarrow> res = Start_Failed \<and> s' = NotRunning)))"
proof -
  let ?s1 = "snd (stop_maestral_daemon_process (exits_in_time e) s)"
  let ?r = "fst (stop_maestral_daemon_process (exits_in_time e) s)"
  let ?fb = "case ?r of
               Stop_Ok \<Rightarrow> [CHR 0x0D] @ ''Stopping Maestral...        '' @ OK
             | Stop_NotRunning \<Rightarrow> ''Maestral daemon is not running.''
             | Stop_Killed \<Rightarrow> [CHR 0x0D] @ ''Stopping Maestral...        '' @ KILLED"
  have r: "restart e foreground verbose config_name s =
      (case start e foreground verbose config_name ?s1 of
         None \<Rightarrow> None
       | Some (start_events, s'') \<Rightarrow>
           Some ([Echo ''Stopping Maestral...'' False, StopProcess config_name ?r, Echo ?fb True]
                 @ start_events, s''))"
    by (simp add: restart_def stop_feedback_events)
  note st = start_not_running [OF stop_leaves_not_running, of e foreground verbose config_name "exits_in_time e" s]
  show ?thesis
  proof (cases "launch_ok e")
    case False
    then show ?thesis
      unfolding r st by auto
  next
    case True
    show ?thesis
    proof (cases "post_start_setup e foreground verbose config_name")
      case None
      with True show ?thesis
        unfolding r st by simp
    next
      case (Some ses)
      from post_start_setup_events [OF Some] obtain dialogs where
        "ses = GetProxy config_name # dialogs @ [SetLogToStdout verbose, StartSync]
                 @ (if foreground then [JoinThread config_name] else [])"
        by blast
      with True Some show ?thesis
        unfolding r st by auto
    qed
  qed
qed

theorem restart_composition_witness:
  "restart example_env True True ''maestral'' Running =
     Some ([Echo ''Stopping Maestral...'' False, StopProcess ''maestral'' Stop_Killed,
            Echo ([CHR 0x0D] @ ''Stopping Maestral...        '' @ KILLED) True,
            Echo ''Starting Maestral...'' False, StartThread ''maestral'' Start_Ok,
            Echo ([CHR 0x0D] @ ''Starting Maestral...        '' @ OK) True,
            GetProxy ''maestral'', GetAuthUrl,
            Echo ''1. Go to: https://auth'' True,
            Echo (''2. Click '' @ dq @ ''Allow'' @ dq @ '' (you may have to log in first).'') True,
            Echo ''3. Copy the authorization token.'' True,
            Prompt ''Enter the authorization token here'', Link ''bad'' 1,
            Echo (style ''Invalid token. Please try again.'' red) True,
            Prompt ''Enter the authorization token here'', Link ''good'' 0,
            SetLogToStdout True, StartSync, JoinThread ''maestral''], Running)
   \<and> (\<exists>es r feedback res rest.
         restart example_env True True ''maestral'' Running = Some (es, Running)
         \<and> es = [Echo ''Stopping Maestral...'' False, StopProcess ''maestral'' r, Echo feedback True,
                  Echo ''Starting Maestral...'' False, StartThread ''maestral'' res] @ rest
         \<and> r = Stop_Killed \<and> res = Start_Ok)"
proof -
  let ?es = "[Echo ''Stopping Maestral...'' False, StopProcess ''maestral'' Stop_Killed,
            Echo ([CHR 0x0D] @ ''Stopping Maestral...        '' @ KILLED) True,
            Echo ''Starting Maestral...'' False, StartThread ''maestral'' Start_Ok,
            Echo ([CHR 0x0D] @ ''Starting Maestral...        '' @ OK) True,
            GetProxy ''maestral'', GetAuthUrl,
            Echo ''1. Go to: https://auth'' True,
            Echo (''2. Click '' @ dq @ ''Allow'' @ dq @ '' (you may have to log in first).'') True,
            Echo ''3. Copy the authorization token.'' True,
            Prompt ''Enter the authorization token here'', Link ''bad'' 1,
            Echo (style ''Invalid token. Please try again.'' red) True,
            Prompt ''Enter the authorization token here'', Link ''good'' 0,
            SetLogToStdout True, StartSync, JoinThread ''maestral'']"
  have ok: "launch_ok example_env"
    by (simp add: example_env_def)
  have k: "fst (stop_maestral_daemon_process (exits_in_time example_env) Running) = Stop_Killed"
    by (simp add: example_env_def stop_maestral_daemon_process_def)
  have a: "restart example_env True True ''maestral'' Running = Some (?es, Running)"
    by code_simp
  from restart_composition [of example_env True True "''maestral''" Running ?es Running] a
  obtain r feedback res rest where
    "?es = [Echo ''Stopping Maestral...'' False, StopProcess ''maestral'' r, Echo feedback True,
            Echo ''Starting Maestral...'' False, StartThread ''maestral'' res] @ rest"
    "r = fst (stop_maestral_daemon_process (exits_in_time example_env) Running)"
    "launch_ok example_env \<longrightarrow> res = Start_Ok"
    by (simp only: if_True) blast
  with ok k a have b: "\<exists>es r feedback res rest.
         restart example_env True True ''maestral'' Running = Some (es, Running)
         \<and> es = [Echo ''Stopping Maestral...'' False, StopProcess ''maestral'' r, Echo feedback True,
                  Echo ''Starting Maestral...'' False, StartThread ''maestral'' res] @ rest
         \<and> r = Stop_Killed \<and> res = Start_Ok"
    by blast
  show ?thesis
    by (intro conjI a b)
qed

section \<open>A daemon that is not running\<close>

lemma with_proxy_None: "with_proxy None body = ([], Some CommunicationError)"
  by (simp add: with_proxy_def MaestralProxy_def)

lemma except_CommunicationError_caught:
  "except_CommunicationError ([], Some CommunicationError) handler = handler"
  by (simp add: except_CommunicationError_def)

lemma except_CommunicationError_escape:
  "snd handler \<noteq> Some CommunicationError \<Longrightarrow>
     snd (except_CommunicationError body handler) \<noteq> Some CommunicationError"
  by (auto simp: except_CommunicationError_def split: prod.splits option.splits exn.splits)

lemma notify_snooze_escape: "snd (notify_snooze minutes daemon) \<noteq> Some CommunicationError"
  by (simp add: notify_snooze_def split: prod.splits option.splits exn.splits)

lemma activity_escape:
  "(case activity terminal_width ticks daemon of
      None \<Rightarrow> True | Some r \<Rightarrow> snd r \<noteq> Some CommunicationError)"
  by (auto simp: activity_def MaestralProxy_def
        split: option.splits sum.splits exn.splits prod.splits loop_end.splits)

lemma excluded_remove_escape:
  "snd (excluded_remove terminal_width dropbox_path daemon) \<noteq> Some CommunicationError"
  unfolding excluded_remove_def Let_def
  by (simp add: except_CommunicationError_escape)

text \<open>
  Claim C8, as the code has it. Against a daemon that is not running, \<open>pause\<close>,
  \<open>resume\<close>, \<open>status\<close>, \<open>activity\<close>, \<open>rebuild-index\<close> and \<open>notify snooze\<close> print that the
  daemon is not running and return, \<open>file-status\<close> prints \<open>unwatched\<close>, and
  \<open>excluded remove\<close> of a path other than the root raises the command line error that
  the daemon must be running; and whatever the daemon, no communication error leaves any
  of these commands.
\<close>

theorem strict_commands_not_running:
  "pause None = ([Echo not_running_msg True], None)
   \<and> resume terminal_width None = ([Echo not_running_msg True], None)
   \<and> status terminal_width None = ([Echo not_running_msg True], None)
   \<and> file_status terminal_width local_path None = ([Echo ''unwatched'' True], None)
   \<and> activity terminal_width ticks None = Some ([Echo not_running_msg True], None)
   \<and> rebuild_index terminal_width continue None = ([Echo not_running_msg True], None)
   \<and> notify_snooze minutes None = ([Echo not_running_msg True], None)
   \<and> excluded_remove terminal_width dropbox_path None =
        (if dropbox_path = [] \<or> dropbox_path = ''/''
         then ([Echo (style ''The root directory is always included.'' red) True], None)
         else ([], Some (ClickException ''Maestral daemon must be running to download folders.'')))
   \<and> snd (pause daemon) \<noteq> Some CommunicationError
   \<and> snd (resume terminal_width daemon) \<noteq> Some CommunicationError
   \<and> snd (status terminal_width daemon) \<noteq> Some CommunicationError
   \<and> snd (file_status terminal_width local_path daemon) \<noteq> Some CommunicationError
   \<and> (case activity terminal_width ticks daemon of
         None \<Rightarrow> True | Some r \<Rightarrow> snd r \<noteq> Some CommunicationError)
   \<and> snd (rebuild_index terminal_width continue daemon) \<noteq> Some CommunicationError
   \<and> snd (notify_snooze minutes daemon) \<noteq> Some CommunicationError
   \<and> snd (excluded_remove terminal_width dropbox_path daemon) \<noteq> Some CommunicationError"
proof -
  have er: "excluded_remove terminal_width dropbox_path None =
        (if dropbox_path = [] \<or> dropbox_path = ''/''
         then ([Echo (style ''The root directory is always included.'' red) True], None)
         else ([], Some (ClickException ''Maestral daemon must be running to download folders.'')))"
    by (cases dropbox_path)
      (auto simp: excluded_remove_def Let_def with_proxy_None except_CommunicationError_caught)
  show ?thesis
    by (intro conjI er notify_snooze_escape activity_escape excluded_remove_escape)
      (simp_all add: pause_def resume_def status_def file_status_def rebuild_index_def
         notify_snooze_def activity_def MaestralProxy_def with_proxy_None
         except_CommunicationError_caught except_CommunicationError_escape)
qed

text \<open>
  Claim C8 as stated fails for \<open>excluded remove\<close>, which does not report that the daemon
  is not running but raises \<open>ClickException\<close> with another message.
\<close>

theorem excluded_remove_not_running:
  "excluded_remove 80 ''/photos'' None
     = ([], Some (ClickException ''Maestral daemon must be running to download folders.''))"
  by code_simp

section \<open>The live view\<close>

lemma adjacent_Cons: "adjacent (x # y # ys) = (x, y) # adjacent (y # ys)"
  by (simp add: adjacent_def)

lemma adjacent_single: "adjacent [x] = []"
  by (simp add: adjacent_def)

lemma adjacent_Nil: "adjacent [] = []"
  by (simp add: adjacent_def)

lemma set_adjacent_Cons:
  "set (adjacent (x # ys)) = (if ys = [] then {} else {(x, hd ys)}) \<union> set (adjacent ys)"
  by (cases ys) (simp_all add: adjacent_def)

lemma curses_loop_hd:
  "fst (curses_loop ticks) \<noteq> [] \<Longrightarrow> hd (fst (curses_loop ticks)) = GetActivity"
  by (induction ticks rule: curses_loop.induct) (auto simp: Let_def case_prod_beta)

lemma curses_loop_step:
  "curses_loop ((Some sn, key) # ticks) =
     ([GetActivity, Clear, Addstr (join [CHR 0x0A] (activity_lines sn)), Refresh, Getch key]
        @ (if key = 113 then [] else (if key < 0 then [Sleep 1] else []) @ fst (curses_loop ticks)),
      if key = 113 then Quit else snd (curses_loop ticks))"
  by (simp add: Let_def case_prod_beta)

lemma pass_adjacent:
  "set (adjacent ([GetActivity, Clear, Addstr t, Refresh, Getch key] @ rest)) =
     {(GetActivity, Clear), (Clear, Addstr t), (Addstr t, Refresh), (Refresh, Getch key)}
     \<union> (if rest = [] then {} else {(Getch key, hd rest)}) \<union> set (adjacent rest)"
  by (cases rest) (auto simp: adjacent_def)

lemma paced_pass:
  "paced GetActivity Clear" "paced Clear (Addstr t)" "paced (Addstr t) Refresh"
  "paced Refresh (Getch key)"
  by (simp_all add: paced_def)

lemma paced_after_poll:
  "key < 0 \<Longrightarrow> paced (Getch key) (Sleep 1)"
  "0 \<le> key \<Longrightarrow> key \<noteq> 113 \<Longrightarrow> paced (Getch key) GetActivity"
  "paced (Sleep 1) GetActivity"
  "key < 0 \<Longrightarrow> paced (Getch key) (Sleep (Suc 0))"
  "paced (Sleep (Suc 0)) GetActivity"
  by (simp_all add: paced_def)

lemma curses_loop_pairs:
  "\<forall>(a, b) \<in> set (adjacent (fst (curses_loop ticks))). paced a b"
proof (induction ticks rule: curses_loop.induct)
  case 1
  then show ?case by (simp add: adjacent_Nil)
next
  case (2 key ticks)
  then show ?case by (simp add: adjacent_single)
next
  case (3 sn key ticks)
  let ?t = "join [CHR 0x0A] (activity_lines sn)"
  let ?es = "fst (curses_loop ticks)"
  show ?case
  proof (cases "key = 113")
    case True
    have "fst (curses_loop ((Some sn, key) # ticks)) = [GetActivity, Clear, Addstr ?t, Refresh, Getch key] @ []"
      using True by (simp add: curses_loop_step del: curses_loop.simps)
    then show ?thesis
      by (simp only: pass_adjacent) (simp add: paced_pass adjacent_Nil)
  next
    case False
    with 3 have ih: "\<forall>(a, b) \<in> set (adjacent ?es). paced a b"
      by (cases "key < 0") (simp_all add: case_prod_beta)
    have hd: "?es \<noteq> [] \<Longrightarrow> hd ?es = GetActivity"
      by (rule curses_loop_hd)
    show ?thesis
    proof (cases "key < 0")
      case True
      have e: "fst (curses_loop ((Some sn, key) # ticks))
          = [GetActivity, Clear, Addstr ?t, Refresh, Getch key] @ (Sleep 1 # ?es)"
        using True False by (simp add: curses_loop_step del: curses_loop.simps)
      have "\<forall>(a, b) \<in> set (adjacent (Sleep 1 # ?es)). paced a b"
        using ih hd by (auto simp: set_adjacent_Cons paced_after_poll)
      then show ?thesis
        unfolding e pass_adjacent using True by (auto simp: paced_pass paced_after_poll)
    next
      case nn: False
      have e: "fst (curses_loop ((Some sn, key) # ticks))
          = [GetActivity, Clear, Addstr ?t, Refresh, Getch key] @ ?es"
        using nn False by (simp add: curses_loop_step del: curses_loop.simps)
      show ?thesis
        unfolding e pass_adjacent using nn False ih hd by (auto simp: paced_pass paced_after_poll)
    qed
  qed
qed

lemma curses_loop_counts:
  "length (filter is_poll (fst (curses_loop ticks)))
     = length (filter (\<lambda>e. e = Refresh) (fst (curses_loop ticks)))"
  by (induction ticks rule: curses_loop.induct) (auto simp: Let_def case_prod_beta)

lemma curses_loop_sleep_first:
  "fst (curses_loop ticks) \<noteq> [] \<Longrightarrow> \<not> is_sleep (hd (fst (curses_loop ticks)))"
  by (simp add: curses_loop_hd)

lemma curses_loop_quit:
  "(snd (curses_loop ticks) = Quit \<longleftrightarrow> Getch 113 \<in> set (fst (curses_loop ticks)))
   \<and> (snd (curses_loop ticks) = Quit \<longrightarrow> last (fst (curses_loop ticks)) = Getch 113)"
proof (induction ticks rule: curses_loop.induct)
  case 1
  then show ?case by simp
next
  case (2 key ticks)
  then show ?case by simp
next
  case (3 sn key ticks)
  show ?case
  proof (cases "key = 113")
    case True
    then show ?thesis
      unfolding curses_loop_step by simp
  next
    case False
    with 3 have ih: "(snd (curses_loop ticks) = Quit \<longleftrightarrow> Getch 113 \<in> set (fst (curses_loop ticks)))"
      "snd (curses_loop ticks) = Quit \<longrightarrow> last (fst (curses_loop ticks)) = Getch 113"
      by (cases "key < 0"; simp add: case_prod_beta)+
    have ne: "snd (curses_loop ticks) = Quit \<longrightarrow> fst (curses_loop ticks) \<noteq> []"
      using ih(1) by auto
    from False ih ne show ?thesis
      unfolding curses_loop_step by auto
  qed
qed

lemma curses_loop_reaches_quit:
  assumes "\<forall>t \<in> set pre. fst t \<noteq> None \<and> snd t \<noteq> 113"
  shows "snd (curses_loop (pre @ (Some sn, 113) # post)) = Quit"
  using assms
proof (induction pre)
  case Nil
  then show ?case by simp
next
  case (Cons t pre)
  obtain s k where t: "t = (s, k)" by (cases t) auto
  with Cons.prems obtain sn' where s: "s = Some sn'" and k: "k \<noteq> 113"
    by auto
  from Cons show ?case
    by (simp add: t s k curses_loop_step del: curses_loop.simps)
qed

lemma activity_nodelay:
  assumes "activity terminal_width ticks daemon = Some (es, x)" "es = pre @ Getch key # post"
  shows "Nodelay \<in> set pre"
proof -
  have g: "Getch key \<in> set es"
    using assms(2) by simp
  from assms(1) g obtain les where es: "es = [UseDefaultColors, Nodelay] @ les"
    unfolding activity_def check_for_fatal_errors_def MaestralProxy_def
    by (auto split: option.splits sum.splits exn.splits prod.splits loop_end.splits list.splits
          if_splits)
  from assms(2) have "UseDefaultColors # Nodelay # les = pre @ Getch key # post"
    by (simp add: es)
  then show ?thesis
    by (cases pre; cases "tl pre") auto
qed

text \<open>
  Claim C9. In the live view every pass polls the keyboard exactly once, directly after
  refreshing the screen, and \<open>getch\<close> is polled only after \<open>nodelay\<close> was set; the poll of
  \<open>q\<close> is the last event of the loop, which then has ended, and a \<open>q\<close> that is reached
  ends it; a sleep happens only directly after a poll without a key, and then for one
  time unit; after any other key the next pass begins at once.
\<close>

theorem loop_pacing:
  "(\<forall>(a, b) \<in> set (adjacent (fst (curses_loop ticks))). paced a b)
   \<and> (fst (curses_loop ticks) \<noteq> [] \<longrightarrow> hd (fst (curses_loop ticks)) = GetActivity)
   \<and> length (filter is_poll (fst (curses_loop ticks)))
       = length (filter (\<lambda>e. e = Refresh) (fst (curses_loop ticks)))
   \<and> (snd (curses_loop ticks) = Quit \<longleftrightarrow> Getch 113 \<in> set (fst (curses_loop ticks)))
   \<and> (snd (curses_loop ticks) = Quit \<longrightarrow> last (fst (curses_loop ticks)) = Getch 113)
   \<and> ((\<forall>t \<in> set before. fst t \<noteq> None \<and> snd t \<noteq> 113)
        \<longrightarrow> snd (curses_loop (before @ (Some sn, 113) # after)) = Quit)
   \<and> (activity terminal_width ticks daemon = Some (es, x) \<and> es = pre @ Getch key # post
        \<longrightarrow> Nodelay \<in> set pre)"
  using curses_loop_pairs [of ticks] curses_loop_hd [of ticks] curses_loop_counts [of ticks]
    curses_loop_quit [of ticks] curses_loop_reaches_quit [of before sn after]
    activity_nodelay [of terminal_width ticks daemon es x pre key post]
  by blast

theorem loop_pacing_witness:
  "snd (curses_loop example_ticks) = Quit
   \<and> last (fst (curses_loop example_ticks)) = Getch 113
   \<and> list_all (\<lambda>(a, b). paced a b) (adjacent (fst (curses_loop example_ticks)))
   \<and> filter (\<lambda>e. is_poll e \<or> is_sleep e) (fst (curses_loop example_ticks))
       = [Getch (- 1), Sleep 1, Getch 97, Getch 113]"
proof -
  have h: "\<forall>t \<in> set [(Some example_snapshot, - 1), (Some example_snapshot, 97)].
             fst t \<noteq> None \<and> snd t \<noteq> (113 :: int)"
    by simp
  from loop_pacing [of example_ticks "[(Some example_snapshot, - 1), (Some example_snapshot, 97)]"
      example_snapshot "[(None, 5)]"] h
  have q: "snd (curses_loop example_ticks) = Quit"
    and l: "snd (curses_loop example_ticks) = Quit \<longrightarrow> last (fst (curses_loop example_ticks)) = Getch 113"
    and p: "\<forall>(a, b) \<in> set (adjacent (fst (curses_loop example_ticks))). paced a b"
    by (simp_all add: example_ticks_def del: curses_loop.simps)
  from p have p': "list_all (\<lambda>(a, b). paced a b) (adjacent (fst (curses_loop example_ticks)))"
    by (simp add: list_all_iff)
  have f: "filter (\<lambda>e. is_poll e \<or> is_sleep e) (fst (curses_loop example_ticks))
       = [Getch (- 1), Sleep 1, Getch 97, Getch 113]"
    by (simp add: example_ticks_def Let_def)
  from q l have l': "last (fst (curses_loop example_ticks)) = Getch 113"
    by simp
  show ?thesis
    by (intro conjI q l' p' f)
qed

end
